theory Spec2Isabelle
  imports Complex_Main "HOL-Library.Word"
begin

unbundle bit_operations_syntax

section \<open>JavaScript strings\<close>

text \<open>
  A JavaScript string is modelled as a \<^typ>\<open>string\<close>: a list of code units, here the
  code units 0..255 (the Latin-1 part of UTF-16). \<open>length\<close> is the \<open>.length\<close> of the
  source. The white space of \<open>\s\<close> and of \<open>trim()\<close> in that range is TAB, LF, VT, FF, CR,
  SPACE and NBSP.
\<close>

definition isSpace :: "char \<Rightarrow> bool" where
  "isSpace c \<longleftrightarrow> c \<in> {CHR 0x09, CHR 0x0A, CHR 0x0B, CHR 0x0C, CHR 0x0D, CHR 0x20, CHR 0xA0}"

definition trim :: "string \<Rightarrow> string" where
  "trim s = rev (dropWhile isSpace (rev (dropWhile isSpace s)))"

text \<open>\<open>s.replace(/\s+/g, " ")\<close>: every maximal run of white space becomes one space.
  The flag says that the previous code unit was white space.\<close>

fun collapseFrom :: "bool \<Rightarrow> string \<Rightarrow> string" where
  "collapseFrom prev [] = []"
| "collapseFrom prev (c # cs) =
     (if isSpace c then (if prev then collapseFrom True cs else CHR '' '' # collapseFrom True cs)
      else c # collapseFrom False cs)"

definition collapseSpaces :: "string \<Rightarrow> string" where
  "collapseSpaces s = collapseFrom False s"

text \<open>\<open>s.split(d)\<close> for a one-character separator; \<open>"".split(d)\<close> is \<open>[""]\<close>.\<close>

fun splitOn :: "char \<Rightarrow> string \<Rightarrow> string list" where
  "splitOn d [] = [[]]"
| "splitOn d (c # cs) =
     (if c = d then [] # splitOn d cs
      else (case splitOn d cs of [] \<Rightarrow> [[c]] | w # ws \<Rightarrow> (c # w) # ws))"

text \<open>\<open>xs.join(sep)\<close>.\<close>

fun joinWith :: "string \<Rightarrow> string list \<Rightarrow> string" where
  "joinWith sep [] = []"
| "joinWith sep [x] = x"
| "joinWith sep (x # y # ys) = x @ sep @ joinWith sep (y # ys)"

text \<open>Decimal rendering of a non-negative integer, as a template literal prints it.\<close>

definition digitChar :: "nat \<Rightarrow> char" where
  "digitChar d = ''0123456789'' ! d"

fun showNat :: "nat \<Rightarrow> string" where
  "showNat n = (if n < 10 then [digitChar n] else showNat (n div 10) @ [digitChar (n mod 10)])"

declare showNat.simps [simp del]

section \<open>Request validation (background.js, handleExplainRequest)\<close>

datatype easyReadError = EasyReadError (message: string) (code: string) (retriable: bool)

definition HARD_MAX_CHARS :: nat where
  "HARD_MAX_CHARS = 12000"

definition FAST_SINGLE_CALL_MAX_CHARS :: nat where
  "FAST_SINGLE_CALL_MAX_CHARS = 0"

text \<open>\<open>normalizeSelection\<close>: a value that is not a string (\<open>None\<close>) gives the empty
  string, a string is trimmed.\<close>

definition normalizeSelection :: "string option \<Rightarrow> string" where
  "normalizeSelection v = (case v of Some s \<Rightarrow> trim s | None \<Rightarrow> [])"

text \<open>
  The world of a request: the number of calls sent to the proxy so far. Everything that
  \<open>handleExplainRequest\<close> does after its two validation checks (model choice, cache
  lookup, the model calls) is the parameter \<open>proceed\<close>, which receives the trimmed selection
  and the world; the reading of the settings that precedes the checks touches local
  storage only.
\<close>

record world =
  upstreamCalls :: nat

definition handleExplainRequest ::
  "(string \<Rightarrow> world \<Rightarrow> (easyReadError + 'a) \<times> world) \<Rightarrow> string option \<Rightarrow> world
    \<Rightarrow> (easyReadError + 'a) \<times> world" where
  "handleExplainRequest proceed payloadSelectedText w =
     (let selectedText = normalizeSelection payloadSelectedText in
      if selectedText = [] then
        (Inl (EasyReadError ''Please select text first.'' ''NO_SELECTION'' False), w)
      else if length selectedText > HARD_MAX_CHARS then
        (Inl (EasyReadError
           (''Selection is too long ('' @ showNat (length selectedText) @ '' chars). Max is ''
              @ showNat HARD_MAX_CHARS @ ''.'')
           ''SELECTION_TOO_LONG'' False), w)
      else proceed selectedText w)"

section \<open>Retry with exponential backoff (background.js, withExponentialBackoff)\<close>

text \<open>
  \<open>action k\<close> is what the \<open>k\<close>-th invocation of the action does (\<open>k = 1, 2, ...\<close>):
  it throws an error (\<open>Inl\<close>) or resolves to a value (\<open>Inr\<close>). \<open>rnd i\<close> is the
  \<open>i\<close>-th draw of \<open>Math.random()\<close>, a number in \<open>[0, 1)\<close>. The run gives the outcome of
  the whole call, the number of invocations of the action and the sleeps in milliseconds,
  in order. \<open>maxAttempts\<close> is a count, a natural number.
\<close>

record 'a backoffRun =
  outcome :: "easyReadError + 'a"
  invocations :: nat
  sleeps :: "nat list"










section \<open>Cache fingerprint (background.js, buildCacheKey and sha256)\<close>

text \<open>The object \<open>parts\<close>; its fields carry the prefix \<open>key\<close>. The five parts are
  strings at the only call site, where \<open>parts.x || ""\<close> is \<open>parts.x\<close>.\<close>

record cacheKeyParts =
  keyPageOrigin :: string
  keySelectedText :: string
  keyExplanationMode :: string
  keyModel :: string
  keyModelVersion :: string

definition serializeParts :: "cacheKeyParts \<Rightarrow> string" where
  "serializeParts parts =
     joinWith ''||'' [keyPageOrigin parts, keySelectedText parts, keyExplanationMode parts, keyModel parts,
       keyModelVersion parts]"

text \<open>\<open>new TextEncoder().encode(input)\<close>: UTF-8; a code unit below 128 is one byte, one
  from 128 to 255 is two bytes.\<close>

definition utf8Encode :: "string \<Rightarrow> 8 word list" where
  "utf8Encode s = concat (map (\<lambda>c. let n = (of_char c :: nat) in
       if n < 128 then [of_nat n] else [of_nat (192 + n div 64), of_nat (128 + n mod 64)]) s)"

text \<open>SHA-256 (FIPS 180-4), which \<open>crypto.subtle.digest("SHA-256", _)\<close> computes.\<close>

text \<open>
  The constants of the standard are given there by their meaning: the round constants are
  the first 32 bits of the fractional parts of the cube roots of the first 64 primes, the
  initial hash value those of the square roots of the first 8 primes. \<open>iroot k n\<close> is the
  integer \<open>k\<close>-th root of \<open>n\<close>, found bit by bit from bit 39 down.
\<close>

fun irootBits :: "nat \<Rightarrow> int \<Rightarrow> nat \<Rightarrow> int \<Rightarrow> int" where
  "irootBits k n 0 r = r"
| "irootBits k n (Suc b) r = irootBits k n b (if (r + 2 ^ b) ^ k \<le> n then r + 2 ^ b else r)"

definition iroot :: "nat \<Rightarrow> int \<Rightarrow> int" where
  "iroot k n = irootBits k n 40 0"

definition isPrimeNumber :: "nat \<Rightarrow> bool" where
  "isPrimeNumber n \<longleftrightarrow> 1 < n \<and> (\<forall>d \<in> set [2 ..< n]. n mod d \<noteq> 0)"

definition firstPrimes :: "nat list" where
  "firstPrimes = filter isPrimeNumber [2 ..< 312]"

definition K256 :: "32 word list" where
  "K256 = map (\<lambda>p. word_of_int (iroot 3 (int p * 2 ^ 96))) firstPrimes"

definition H256 :: "32 word list" where
  "H256 = map (\<lambda>p. word_of_int (iroot 2 (int p * 2 ^ 64))) (take 8 firstPrimes)"

definition rotr :: "nat \<Rightarrow> 32 word \<Rightarrow> 32 word" where
  "rotr n x = word_rotr n x"

definition bsig0 :: "32 word \<Rightarrow> 32 word" where
  "bsig0 x = rotr 2 x XOR rotr 13 x XOR rotr 22 x"

definition bsig1 :: "32 word \<Rightarrow> 32 word" where
  "bsig1 x = rotr 6 x XOR rotr 11 x XOR rotr 25 x"

definition ssig0 :: "32 word \<Rightarrow> 32 word" where
  "ssig0 x = rotr 7 x XOR rotr 18 x XOR drop_bit 3 x"

definition ssig1 :: "32 word \<Rightarrow> 32 word" where
  "ssig1 x = rotr 17 x XOR rotr 19 x XOR drop_bit 10 x"

definition ch :: "32 word \<Rightarrow> 32 word \<Rightarrow> 32 word \<Rightarrow> 32 word" where
  "ch x y z = (x AND y) XOR (NOT x AND z)"

definition maj :: "32 word \<Rightarrow> 32 word \<Rightarrow> 32 word \<Rightarrow> 32 word" where
  "maj x y z = (x AND y) XOR (x AND z) XOR (y AND z)"

text \<open>Padding: the byte \<open>0x80\<close>, zero bytes up to 56 modulo 64, the bit length on 8 bytes.\<close>

definition be64 :: "nat \<Rightarrow> 8 word list" where
  "be64 n = map (\<lambda>i. ucast (drop_bit (8 * (7 - i)) (of_nat n :: 64 word))) [0 ..< 8]"

definition padMessage :: "8 word list \<Rightarrow> 8 word list" where
  "padMessage bs =
     bs @ [0x80] @ replicate ((119 - length bs mod 64) mod 64) 0 @ be64 (8 * length bs)"

fun wordsOfBytes :: "8 word list \<Rightarrow> 32 word list" where
  "wordsOfBytes (a # b # c # d # bs) =
     (push_bit 24 (ucast a) OR push_bit 16 (ucast b) OR push_bit 8 (ucast c) OR ucast d)
       # wordsOfBytes bs"
| "wordsOfBytes _ = []"

fun extendSchedule :: "nat \<Rightarrow> 32 word list \<Rightarrow> 32 word list" where
  "extendSchedule 0 w = w"
| "extendSchedule (Suc n) w =
     (let t = length w in
      extendSchedule n
        (w @ [ssig1 (w ! (t - 2)) + w ! (t - 7) + ssig0 (w ! (t - 15)) + w ! (t - 16)]))"

text \<open>One round on the working variables \<open>[a, b, c, d, e, f, g, h]\<close>.\<close>

fun sha256Round :: "32 word list \<Rightarrow> 32 word \<times> 32 word \<Rightarrow> 32 word list" where
  "sha256Round [a, b, c, d, e, f, g, h] (k, w) =
     (let t1 = h + bsig1 e + ch e f g + k + w; t2 = bsig0 a + maj a b c
      in [t1 + t2, a, b, c, d + t1, e, f, g])"
| "sha256Round v _ = v"

definition compress :: "32 word list \<Rightarrow> 32 word list \<Rightarrow> 32 word list" where
  "compress hs block =
     map2 (+) hs (foldl sha256Round hs (zip K256 (extendSchedule 48 block)))"

fun blocks :: "32 word list \<Rightarrow> 32 word list list" where
  "blocks ws = (if length ws < 16 then [] else take 16 ws # blocks (drop 16 ws))"

declare blocks.simps [simp del]

definition sha256Digest :: "8 word list \<Rightarrow> 32 word list" where
  "sha256Digest bs = foldl compress H256 (blocks (wordsOfBytes (padMessage bs)))"

text \<open>\<open>[...bytes].map((b) => b.toString(16).padStart(2, "0")).join("")\<close>, on the digest's
  words: eight hexadecimal digits for each.\<close>

definition hexDigit :: "nat \<Rightarrow> char" where
  "hexDigit d = ''0123456789abcdef'' ! d"

definition hexWord :: "32 word \<Rightarrow> string" where
  "hexWord w = map (\<lambda>i. hexDigit (unat (drop_bit (4 * (7 - i)) w AND 15))) [0 ..< 8]"

definition sha256 :: "string \<Rightarrow> string" where
  "sha256 input = concat (map hexWord (sha256Digest (utf8Encode input)))"

definition buildCacheKey :: "cacheKeyParts \<Rightarrow> string" where
  "buildCacheKey parts = sha256 (serializeParts parts)"




definition separatorFree :: "cacheKeyParts \<Rightarrow> bool" where
  "separatorFree p \<longleftrightarrow>
     CHR ''|'' \<notin> set (keyPageOrigin p) \<and> CHR ''|'' \<notin> set (keyExplanationMode p)
     \<and> CHR ''|'' \<notin> set (keyModel p) \<and> CHR ''|'' \<notin> set (keyModelVersion p)"

section \<open>Chunking (background.js, splitTextIntoChunks)\<close>

text \<open>\<open>String(text || "").replace(/\s+/g, " ").trim()\<close>.\<close>

definition normalizeWhitespace :: "string \<Rightarrow> string" where
  "normalizeWhitespace text = trim (collapseSpaces text)"

text \<open>
  The \<open>for\<close> loop over the words, with the pushed chunks, the chunk under construction
  and the words still to read. \<open>targetChars\<close> and \<open>maxChunks\<close> are integers; the early
  \<open>return\<close> folds the words left into one last chunk.
\<close>

function chunkLoop :: "int \<Rightarrow> int \<Rightarrow> string list \<Rightarrow> string \<Rightarrow> string list \<Rightarrow> string list" where
  "chunkLoop targetChars maxChunks chunks current [] =
     (if current \<noteq> [] then chunks @ [current] else chunks)"
| "chunkLoop targetChars maxChunks chunks current (word # rest) =
     (let next = (if current \<noteq> [] then current @ '' '' @ word else word) in
      if int (length next) > targetChars \<and> current \<noteq> [] then
        (if int (length (chunks @ [current])) \<ge> maxChunks - 1 then
           (let r = trim (joinWith '' '' (word # rest)) in
            if r \<noteq> [] then chunks @ [current] @ [r] else chunks @ [current])
         else chunkLoop targetChars maxChunks (chunks @ [current]) word rest)
      else chunkLoop targetChars maxChunks chunks next rest)"
  by pat_completeness auto
termination
proof (relation "measure (\<lambda>(targetChars, maxChunks, chunks, current, ws). length ws)", goal_cases)
  case 1
  show ?case by simp
next
  case 2
  show ?case by simp
next
  case 3
  show ?case by simp
qed

declare chunkLoop.simps [simp del]

definition splitTextIntoChunks :: "string \<Rightarrow> int \<Rightarrow> int \<Rightarrow> string list" where
  "splitTextIntoChunks text targetChars maxChunks =
     (let normalized = normalizeWhitespace text in
      if normalized = [] then [] else chunkLoop targetChars maxChunks [] [] (splitOn (CHR '' '') normalized))"

text \<open>
  Vocabulary of the chunking theorem: a word has no white space and is not empty; a chunk
  fits when it is within the target size or is a single word; \<open>nextWordOverflows\<close> says
  of a list of chunks that appending the first word of each chunk to the chunk before it
  would exceed the target size.
\<close>

definition isWord :: "string \<Rightarrow> bool" where
  "isWord w \<longleftrightarrow> w \<noteq> [] \<and> (\<forall>c \<in> set w. \<not> isSpace c)"

definition fits :: "int \<Rightarrow> string \<Rightarrow> bool" where
  "fits targetChars c \<longleftrightarrow> int (length c) \<le> targetChars \<or> CHR '' '' \<notin> set c"

definition firstWord :: "string \<Rightarrow> string" where
  "firstWord c = takeWhile (\<lambda>x. x \<noteq> CHR '' '') c"

fun nextWordOverflows :: "int \<Rightarrow> string list \<Rightarrow> bool" where
  "nextWordOverflows targetChars (c # d # cs) =
     (int (length (c @ '' '' @ firstWord d)) > targetChars \<and> nextWordOverflows targetChars (d # cs))"
| "nextWordOverflows targetChars _ = True"

fun noDoubleSp :: "string \<Rightarrow> bool" where
  "noDoubleSp (a # b # cs) = (\<not> (a = CHR '' '' \<and> b = CHR '' '') \<and> noDoubleSp (b # cs))"
| "noDoubleSp _ = True"

section \<open>Copy detection (background.js, isExplanationTooCloseToSource)\<close>

text \<open>\<open>toLowerCase()\<close> on the code units 0..255: the letters A-Z and the upper-case
  letters of Latin-1 move to their lower-case forms, every other unit stays.\<close>

definition upperCaseChars :: string where
  "upperCaseChars = ''ABCDEFGHIJKLMNOPQRSTUVWXYZ'' @
     [CHR 0xC0, CHR 0xC1, CHR 0xC2, CHR 0xC3, CHR 0xC4, CHR 0xC5, CHR 0xC6, CHR 0xC7,
      CHR 0xC8, CHR 0xC9, CHR 0xCA, CHR 0xCB, CHR 0xCC, CHR 0xCD, CHR 0xCE, CHR 0xCF,
      CHR 0xD0, CHR 0xD1, CHR 0xD2, CHR 0xD3, CHR 0xD4, CHR 0xD5, CHR 0xD6,
      CHR 0xD8, CHR 0xD9, CHR 0xDA, CHR 0xDB, CHR 0xDC, CHR 0xDD, CHR 0xDE]"

definition lowerCaseChars :: string where
  "lowerCaseChars = ''abcdefghijklmnopqrstuvwxyz'' @
     [CHR 0xE0, CHR 0xE1, CHR 0xE2, CHR 0xE3, CHR 0xE4, CHR 0xE5, CHR 0xE6, CHR 0xE7,
      CHR 0xE8, CHR 0xE9, CHR 0xEA, CHR 0xEB, CHR 0xEC, CHR 0xED, CHR 0xEE, CHR 0xEF,
      CHR 0xF0, CHR 0xF1, CHR 0xF2, CHR 0xF3, CHR 0xF4, CHR 0xF5, CHR 0xF6,
      CHR 0xF8, CHR 0xF9, CHR 0xFA, CHR 0xFB, CHR 0xFC, CHR 0xFD, CHR 0xFE]"

definition toLowerChar :: "char \<Rightarrow> char" where
  "toLowerChar c = (case map_of (zip upperCaseChars lowerCaseChars) c of Some l \<Rightarrow> l | None \<Rightarrow> c)"

definition toLowerCase :: "string \<Rightarrow> string" where
  "toLowerCase s = map toLowerChar s"

definition isLowerAz :: "char \<Rightarrow> bool" where
  "isLowerAz c \<longleftrightarrow> c \<in> set ''abcdefghijklmnopqrstuvwxyz''"

definition isDigit :: "char \<Rightarrow> bool" where
  "isDigit c \<longleftrightarrow> c \<in> set ''0123456789''"

text \<open>\<open>normalizeSimilarityText\<close>: lower case, every code unit outside
  \<open>[a-z0-9\s']\<close> replaced by a space, white space collapsed, trimmed.\<close>

definition normalizeSimilarityText :: "string \<Rightarrow> string" where
  "normalizeSimilarityText text =
     trim (collapseSpaces
       (map (\<lambda>c. if isLowerAz c \<or> isDigit c \<or> isSpace c \<or> c = CHR 0x27 then c else CHR '' '')
          (toLowerCase text)))"

text \<open>A JavaScript \<open>Set\<close> of strings is a list without duplicates, in insertion order.\<close>

definition setAdd :: "'a list \<Rightarrow> 'a \<Rightarrow> 'a list" where
  "setAdd xs x = (if x \<in> set xs then xs else xs @ [x])"

definition buildNgramSet :: "string list \<Rightarrow> nat \<Rightarrow> string list" where
  "buildNgramSet tokens n =
     (if length tokens < n then []
      else foldl (\<lambda>acc i. setAdd acc (joinWith '' '' (take n (drop i tokens)))) []
             [0 ..< length tokens - n + 1])"

text \<open>\<open>s.includes(sub)\<close>.\<close>

fun includesStr :: "string \<Rightarrow> string \<Rightarrow> bool" where
  "includesStr [] sub = (sub = [])"
| "includesStr (c # cs) sub = (take (length sub) (c # cs) = sub \<or> includesStr cs sub)"

text \<open>\<open>norm.split(" ").filter(Boolean)\<close>.\<close>

definition tokensOf :: "string \<Rightarrow> string list" where
  "tokensOf s = filter (\<lambda>t. t \<noteq> []) (splitOn (CHR 0x20) s)"

text \<open>The ratio \<open>overlap / size\<close> is a quotient of two small natural numbers; it is
  compared with 0.55 as a rational number.\<close>

definition isExplanationTooCloseToSource :: "string \<Rightarrow> string \<Rightarrow> bool" where
  "isExplanationTooCloseToSource explanation selectedText =
     (let explanationNorm = normalizeSimilarityText explanation;
          sourceNorm = normalizeSimilarityText selectedText in
      if explanationNorm = [] \<or> sourceNorm = [] then False
      else if explanationNorm = sourceNorm then True
      else if length explanationNorm \<ge> 70 \<and> includesStr sourceNorm explanationNorm then True
      else
        (let explanationTokens = tokensOf explanationNorm;
             sourceTokens = tokensOf sourceNorm in
         if length explanationTokens < 8 \<or> length sourceTokens < 8 then False
         else
           (let source4Grams = buildNgramSet sourceTokens 4 in
            if length source4Grams = 0 then False
            else
              (let explanation4Grams = buildNgramSet explanationTokens 4;
                   overlap = length (filter (\<lambda>gram. gram \<in> set source4Grams) explanation4Grams);
                   overlapRatio = (if length explanation4Grams > 0
                      then (of_nat overlap :: rat) / of_nat (length explanation4Grams) else 0)
               in length explanationTokens \<ge> 20 \<and> overlapRatio \<ge> 55 / 100))))"

text \<open>The set of the \<open>n\<close>-grams of a list of tokens, each a list of \<open>n\<close> tokens.\<close>

definition ngrams :: "nat \<Rightarrow> string list \<Rightarrow> string list set" where
  "ngrams n tokens = {take n (drop i tokens) | i. i + n \<le> length tokens}"

text \<open>An explanation that repeats an eight-word source three times.\<close>

definition repeatedSource :: string where
  "repeatedSource = ''a b c d e f g h a b c d e f g h a b c d e f g h''"

section \<open>Difficult words (lib/simplicity.js, findHardWords)\<close>

text \<open>The lexicon \<open>A1_A2_WORD_SET\<close> is the parameter \<open>easyWordSet\<close>, a set of strings.\<close>

definition isUpperAZ :: "char \<Rightarrow> bool" where
  "isUpperAZ c \<longleftrightarrow> c \<in> set ''ABCDEFGHIJKLMNOPQRSTUVWXYZ''"

definition isAsciiLetter :: "char \<Rightarrow> bool" where
  "isAsciiLetter c \<longleftrightarrow> isUpperAZ c \<or> isLowerAz c"

definition apostrophe :: char where
  "apostrophe = CHR 0x27"

text \<open>
  \<open>text.match(TOKEN_REGEX) || []\<close> with
  \<open>TOKEN_REGEX = /[A-Za-z]+(?:'[A-Za-z]+)?/g\<close>: from the left, a maximal run of letters,
  extended by an apostrophe and a second maximal run of letters when they follow; the scan
  goes on after the match. A code unit that is not a letter is skipped.
\<close>

function matchTokens :: "string \<Rightarrow> string list" where
  "matchTokens [] = []"
| "matchTokens (c # cs) =
     (if isAsciiLetter c then
        (case dropWhile isAsciiLetter cs of
           [] \<Rightarrow> [c # takeWhile isAsciiLetter cs]
         | q # rest \<Rightarrow>
             if q = apostrophe \<and> takeWhile isAsciiLetter rest \<noteq> [] then
               (c # takeWhile isAsciiLetter cs @ [q] @ takeWhile isAsciiLetter rest)
                 # matchTokens (dropWhile isAsciiLetter rest)
             else (c # takeWhile isAsciiLetter cs) # matchTokens (q # rest))
      else matchTokens cs)"
  by pat_completeness auto
termination
proof (relation "measure length", goal_cases)
  case 1
  show ?case by simp
next
  case (2 c cs q rest)
  have "length (dropWhile isAsciiLetter rest) \<le> length rest" by (rule length_dropWhile_le)
  moreover have "length (q # rest) \<le> length cs"
    using 2(2) length_dropWhile_le [of isAsciiLetter cs] by simp
  ultimately show ?case by simp
next
  case (3 c cs q rest)
  have "length (q # rest) \<le> length cs"
    using 3(2) length_dropWhile_le [of isAsciiLetter cs] by simp
  then show ?case by simp
next
  case 4
  show ?case by simp
qed

declare matchTokens.simps [simp del]

text \<open>
  \<open>normalizeToken\<close>: lower case, then the apostrophes at both ends removed. Its last
  replacement looks for a sequence of three code units of which two are above 255; it
  finds nothing in the strings modelled here and is the identity on them.
\<close>

definition normalizeToken :: "string \<Rightarrow> string" where
  "normalizeToken token =
     rev (dropWhile (\<lambda>c. c = apostrophe) (rev (dropWhile (\<lambda>c. c = apostrophe) (toLowerCase token))))"

text \<open>\<open>/^[0-9]+([.,][0-9]+)?$/\<close>.\<close>

definition isNumberLike :: "string \<Rightarrow> bool" where
  "isNumberLike token \<longleftrightarrow>
     takeWhile isDigit token \<noteq> [] \<and>
     (case dropWhile isDigit token of
        [] \<Rightarrow> True
      | q # rest \<Rightarrow> (q = CHR ''.'' \<or> q = CHR '','') \<and> rest \<noteq> [] \<and> list_all isDigit rest)"

text \<open>\<open>/^[A-Z]{2,}$/\<close>, or \<open>/^[A-Z][a-z]+(?:-[A-Z][a-z]+)+$/\<close>: two or more parts joined
  by hyphens, each a capital followed by at least one small letter.\<close>

definition isCapitalized :: "string \<Rightarrow> bool" where
  "isCapitalized w \<longleftrightarrow> (case w of [] \<Rightarrow> False | c # cs \<Rightarrow> isUpperAZ c \<and> cs \<noteq> [] \<and> list_all isLowerAz cs)"

definition looksLikeProperNoun :: "string \<Rightarrow> bool" where
  "looksLikeProperNoun token \<longleftrightarrow>
     (if token = [] then False
      else if 2 \<le> length token \<and> list_all isUpperAZ token then True
      else 2 \<le> length (splitOn (CHR ''-'') token) \<and> list_all isCapitalized (splitOn (CHR ''-'') token))"

definition endsWith :: "string \<Rightarrow> string \<Rightarrow> bool" where
  "endsWith s suffix \<longleftrightarrow> length suffix \<le> length s \<and> drop (length s - length suffix) s = suffix"

definition suffixRules :: "(string \<times> nat) list" where
  "suffixRules = [(''ing'', 3), (''ed'', 2), (''es'', 2), (''s'', 1), (''er'', 2), (''est'', 3), (''ly'', 2)]"

text \<open>One turn of the loop over the suffix rules: does this rule return \<open>true\<close>?\<close>

definition suffixRuleAllows :: "string \<Rightarrow> string set \<Rightarrow> string \<times> nat \<Rightarrow> bool" where
  "suffixRuleAllows lower easyWordSet rule =
     (case rule of (suffix, minLen) \<Rightarrow>
        endsWith lower suffix \<and> length lower > length suffix + minLen \<and>
        (let stem = take (length lower - length suffix) lower in
           stem \<in> easyWordSet
           \<or> (suffix = ''ing'' \<and> stem @ ''e'' \<in> easyWordSet)
           \<or> ((suffix = ''ed'' \<or> suffix = ''es'') \<and> stem @ ''e'' \<in> easyWordSet)))"

definition isAllowedVariation :: "string \<Rightarrow> string set \<Rightarrow> bool" where
  "isAllowedVariation token easyWordSet =
     (let lower = normalizeToken token in
      if lower = [] then True
      else if lower \<in> easyWordSet then True
      else if endsWith lower [apostrophe, CHR ''s''] \<and> take (length lower - 2) lower \<in> easyWordSet then True
      else list_ex (suffixRuleAllows lower easyWordSet) suffixRules)"

definition findHardWords :: "string \<Rightarrow> string set \<Rightarrow> string list" where
  "findHardWords text easyWordSet =
     foldl (\<lambda>hardWords token.
        if length token \<le> 2 \<or> isNumberLike token \<or> looksLikeProperNoun token then hardWords
        else if \<not> isAllowedVariation token easyWordSet then setAdd hardWords (normalizeToken token)
        else hardWords)
       [] (matchTokens text)"

text \<open>
  What the statement of the difficulty test uses: the shape of a token (a run of letters,
  or two runs joined by one apostrophe), and the allowed variations of a lower-case word
  said with stems: the word is in the lexicon, or is a lexicon word followed by \<open>'s\<close>, or
  is a stem followed by a suffix of a rule, the stem longer than the rule's minimum, with
  the stem, or for \<open>ing\<close>, \<open>ed\<close>, \<open>es\<close> the stem followed by \<open>e\<close>, in the lexicon.
\<close>

definition isToken :: "string \<Rightarrow> bool" where
  "isToken t \<longleftrightarrow>
     (\<exists>a b. a \<noteq> [] \<and> list_all isAsciiLetter a
        \<and> (t = a \<or> (b \<noteq> [] \<and> list_all isAsciiLetter b \<and> t = a @ [apostrophe] @ b)))"

definition allowedVariationSpec :: "string \<Rightarrow> string set \<Rightarrow> bool" where
  "allowedVariationSpec lower easyWordSet \<longleftrightarrow>
     lower \<in> easyWordSet
     \<or> (\<exists>base. lower = base @ [apostrophe, CHR ''s''] \<and> base \<in> easyWordSet)
     \<or> (\<exists>(suffix, minLen) \<in> set suffixRules. \<exists>stem.
           lower = stem @ suffix \<and> minLen < length stem
           \<and> (stem \<in> easyWordSet
              \<or> (suffix \<in> {''ing'', ''ed'', ''es''} \<and> stem @ ''e'' \<in> easyWordSet)))"

section \<open>Response schema (lib/schema.js)\<close>

text \<open>
  \<open>toUpperCase()\<close> on the code units 0..255: the letters a-z and the lower-case letters of
  Latin-1 move to their upper-case forms and the sharp s becomes \<open>SS\<close>. The upper-case
  forms of the code units 0xB5 and 0xFF lie above 255; they stay here, and like their
  upper-case forms they differ from every ASCII character.
\<close>

definition toUpperChar :: "char \<Rightarrow> string" where
  "toUpperChar c =
     (case map_of (zip lowerCaseChars upperCaseChars) c of
        Some u \<Rightarrow> [u]
      | None \<Rightarrow> if c = CHR 0xDF then ''SS'' else [c])"

definition toUpperCase :: "string \<Rightarrow> string" where
  "toUpperCase s = concat (map toUpperChar s)"

text \<open>
  The values that \<open>JSON.parse\<close> returns. A number is a rational or one of the IEEE values
  that are not; an object is the list of its properties, and reading a property that is
  absent, or reading a property of something that is not an object, gives \<open>undefined\<close>,
  here \<open>None\<close>.
\<close>

datatype jsNumber = Num rat | PosInfinity | NegInfinity | NaN

datatype json =
    JNull
  | JBool bool
  | JNumber jsNumber
  | JString string
  | JArray "json list"
  | JObject "(string \<times> json) list"

fun getProp :: "json \<Rightarrow> string \<Rightarrow> json option" where
  "getProp (JObject props) k = map_of props k"
| "getProp _ k = None"

text \<open>\<open>value && typeof value === "object"\<close>: an object or an array, not \<open>null\<close>.\<close>

fun isObjectValue :: "json \<Rightarrow> bool" where
  "isObjectValue (JObject _) = True"
| "isObjectValue (JArray _) = True"
| "isObjectValue _ = False"

definition POS_VALUES :: "string set" where
  "POS_VALUES = {''noun'', ''verb'', ''adj'', ''adv'', ''prep'', ''pron'', ''det'', ''conj'', ''other''}"

definition CEFR_VALUES :: "string set" where
  "CEFR_VALUES = {''A2'', ''B1'', ''B2'', ''C1'', ''C2'', ''unknown''}"

text \<open>A vocabulary entry and a result, as lib/schema.js builds them. The fields of an entry
  carry the prefix \<open>item_\<close>; the field \<open>notes\<close> of a result is \<open>notes_text\<close>.\<close>

record wordItem =
  item_word :: string
  item_lemma :: string
  item_pos :: string
  item_cefr :: string
  item_definition_simple :: string
  item_example_simple :: string

record explainResult =
  simple_explanation :: string
  a2_plus_words :: "wordItem list"
  notes_text :: string
  confidence :: rat

fun clampConfidence :: "json option \<Rightarrow> rat" where
  "clampConfidence (Some (JNumber (Num r))) = max 0 (min 1 r)"
| "clampConfidence (Some (JNumber PosInfinity)) = 1"
| "clampConfidence (Some (JNumber NegInfinity)) = 0"
| "clampConfidence (Some (JNumber NaN)) = 1 / 2"
| "clampConfidence _ = 1 / 2"

fun normalizeString :: "json option \<Rightarrow> string" where
  "normalizeString (Some (JString s)) = trim s"
| "normalizeString _ = []"

definition normalizePos :: "json option \<Rightarrow> string" where
  "normalizePos v =
     (let pos = toLowerCase (normalizeString v) in if pos \<in> POS_VALUES then pos else ''other'')"

definition normalizeCefr :: "json option \<Rightarrow> string" where
  "normalizeCefr v =
     (let cefr = toUpperCase (normalizeString v) in if cefr \<in> CEFR_VALUES then cefr else ''unknown'')"

definition normalizeWordItem :: "json \<Rightarrow> wordItem option" where
  "normalizeWordItem item =
     (if \<not> isObjectValue item then None
      else
        (let w = normalizeString (getProp item ''word'') in
         if w = [] then None
         else Some
           \<lparr>item_word = w,
            item_lemma = (if normalizeString (getProp item ''lemma'') \<noteq> []
                          then normalizeString (getProp item ''lemma'') else toLowerCase w),
            item_pos = normalizePos (getProp item ''pos''),
            item_cefr = normalizeCefr (getProp item ''cefr''),
            item_definition_simple = normalizeString (getProp item ''definition_simple''),
            item_example_simple = normalizeString (getProp item ''example_simple'')\<rparr>))"

text \<open>\<open>value.map(normalizeWordItem).filter(Boolean)\<close>, and \<open>[]\<close> for what is not an array.\<close>

fun normalizeWordEntries :: "json option \<Rightarrow> wordItem list" where
  "normalizeWordEntries (Some (JArray items)) = List.map_filter normalizeWordItem items"
| "normalizeWordEntries _ = []"

datatype parseError = SyntaxError | NoJsonObjectFound | ParsedResultNotAnObject

fun indexOfChar :: "char \<Rightarrow> string \<Rightarrow> nat option" where
  "indexOfChar c [] = None"
| "indexOfChar c (x # xs) = (if x = c then Some 0 else map_option Suc (indexOfChar c xs))"

definition lastIndexOfChar :: "char \<Rightarrow> string \<Rightarrow> nat option" where
  "lastIndexOfChar c s = map_option (\<lambda>i. length s - 1 - i) (indexOfChar c (rev s))"

text \<open>\<open>extractJsonObject\<close>; an index below 0 in the source is \<open>None\<close> here.\<close>

definition extractJsonObject :: "string \<Rightarrow> parseError + string" where
  "extractJsonObject text =
     (case (indexOfChar (CHR ''{'') text, lastIndexOfChar (CHR ''}'') text) of
        (Some start, Some end) \<Rightarrow>
          if end \<le> start then Inl NoJsonObjectFound
          else Inr (take (end + 1 - start) (drop start text))
      | _ \<Rightarrow> Inl NoJsonObjectFound)"

text \<open>\<open>JSON.parse\<close> is the parameter \<open>jsonParse\<close>; \<open>None\<close> is its \<open>SyntaxError\<close>. The
  \<open>try\<close>/\<open>catch\<close> that both entry points of lib/schema.js start with is
  \<open>parseWithFallback\<close>.\<close>

definition parseWithFallback :: "(string \<Rightarrow> json option) \<Rightarrow> string \<Rightarrow> parseError + json" where
  "parseWithFallback jsonParse rawText =
     (case jsonParse rawText of
        Some parsed \<Rightarrow> Inr parsed
      | None \<Rightarrow>
          (case extractJsonObject rawText of
             Inl e \<Rightarrow> Inl e
           | Inr object \<Rightarrow>
               (case jsonParse object of Some parsed \<Rightarrow> Inr parsed | None \<Rightarrow> Inl SyntaxError)))"

text \<open>The second half of \<open>parseAndNormalizeResponse\<close>: the check that the parsed value is
  an object, and the normalized result.\<close>

definition normalizeParsed :: "json \<Rightarrow> parseError + explainResult" where
  "normalizeParsed parsed =
     (if \<not> isObjectValue parsed then Inl ParsedResultNotAnObject
      else Inr
        \<lparr>simple_explanation = normalizeString (getProp parsed ''simple_explanation''),
         a2_plus_words = normalizeWordEntries (getProp parsed ''a2_plus_words''),
         notes_text = normalizeString (getProp parsed ''notes''),
         confidence = clampConfidence (getProp parsed ''confidence'')\<rparr>)"

definition parseAndNormalizeResponse ::
  "(string \<Rightarrow> json option) \<Rightarrow> string \<Rightarrow> parseError + explainResult" where
  "parseAndNormalizeResponse jsonParse rawText =
     (case parseWithFallback jsonParse rawText of
        Inl e \<Rightarrow> Inl e
      | Inr parsed \<Rightarrow> normalizeParsed parsed)"

definition parseAndNormalizeWordCoverage ::
  "(string \<Rightarrow> json option) \<Rightarrow> string \<Rightarrow> parseError + wordItem list" where
  "parseAndNormalizeWordCoverage jsonParse rawText =
     (case parseWithFallback jsonParse rawText of
        Inl e \<Rightarrow> Inl e
      | Inr parsed \<Rightarrow>
          if \<not> isObjectValue parsed then Inl ParsedResultNotAnObject
          else Inr (normalizeWordEntries (getProp parsed ''a2_plus_words'')))"

text \<open>A parser that knows one object, for the examples.\<close>

definition sampleObject :: json where
  "sampleObject = JObject
     [(''simple_explanation'', JString ''  It is about cats. ''),
      (''confidence'', JNumber (Num 3)),
      (''a2_plus_words'', JArray
         [JObject [(''word'', JString '' Feline ''), (''pos'', JString ''Noun''), (''cefr'', JString ''c1''),
                   (''definition_simple'', JString ''a cat ''), (''example_simple'', JString ''A feline sleeps.'')],
          JObject [(''word'', JString ''   ''), (''pos'', JString ''noun'')],
          JObject [(''word'', JString ''purr''), (''lemma'', JString ''purr''), (''pos'', JString ''sound''),
                   (''cefr'', JNumber (Num 2))],
          JString ''stray''])]"

definition sampleParse :: "string \<Rightarrow> json option" where
  "sampleParse s = (if s = ''{cats}'' then Some sampleObject else None)"

definition sampleResult :: explainResult where
  "sampleResult =
     \<lparr>simple_explanation = ''It is about cats.'',
      a2_plus_words =
        [\<lparr>item_word = ''Feline'', item_lemma = ''feline'', item_pos = ''noun'', item_cefr = ''C1'',
          item_definition_simple = ''a cat'', item_example_simple = ''A feline sleeps.''\<rparr>,
         \<lparr>item_word = ''purr'', item_lemma = ''purr'', item_pos = ''other'', item_cefr = ''unknown'',
          item_definition_simple = [], item_example_simple = []\<rparr>],
      notes_text = [], confidence = 1\<rparr>"

section \<open>Theorems\<close>

lemma showNat_12000: "showNat 12000 = ''12000''"
  by (simp add: showNat.simps digitChar_def)

text \<open>
  C3. A selection whose trimmed length exceeds 12000 is rejected by
  \<open>handleExplainRequest\<close> with the message that cites the actual length and the maximum,
  the rest of the request is not run and no call goes upstream; at exactly 12000 the checks
  pass and the request proceeds; an empty (or blank, or non-string) selection is rejected
  with the NO_SELECTION error.
\<close>

theorem handleExplainRequest_validation:
  "(length (normalizeSelection sel) > 12000 \<longrightarrow>
      handleExplainRequest proceed sel w =
        (Inl (EasyReadError
           (''Selection is too long ('' @ showNat (length (normalizeSelection sel))
              @ '' chars). Max is 12000.'')
           ''SELECTION_TOO_LONG'' False), w)
      \<and> upstreamCalls (snd (handleExplainRequest proceed sel w)) = upstreamCalls w)
   \<and> (length (normalizeSelection sel) = 12000 \<longrightarrow>
      handleExplainRequest proceed sel w = proceed (normalizeSelection sel) w)
   \<and> (normalizeSelection sel = [] \<longrightarrow>
      handleExplainRequest proceed sel w =
        (Inl (EasyReadError ''Please select text first.'' ''NO_SELECTION'' False), w))"
  by (auto simp: handleExplainRequest_def HARD_MAX_CHARS_def Let_def showNat_12000)

lemma trim_replicate_a: "trim (replicate n (CHR ''a'')) = replicate n (CHR ''a'')"
  by (simp add: trim_def isSpace_def)

theorem handleExplainRequest_validation_witness:
  "length (normalizeSelection (Some (replicate 12001 (CHR ''a'')))) > 12000
   \<and> handleExplainRequest (\<lambda>s w. (Inr s, w\<lparr>upstreamCalls := upstreamCalls w + 1\<rparr>))
        (Some (replicate 12001 (CHR ''a''))) \<lparr>upstreamCalls = 0\<rparr> =
       (Inl (EasyReadError ''Selection is too long (12001 chars). Max is 12000.''
          ''SELECTION_TOO_LONG'' False), \<lparr>upstreamCalls = 0\<rparr>)
   \<and> length (normalizeSelection (Some (replicate 12000 (CHR ''a'')))) = 12000
   \<and> handleExplainRequest (\<lambda>s w. (Inr s, w\<lparr>upstreamCalls := upstreamCalls w + 1\<rparr>))
        (Some (replicate 12000 (CHR ''a''))) \<lparr>upstreamCalls = 0\<rparr> =
       (Inr (replicate 12000 (CHR ''a'')), \<lparr>upstreamCalls = 1\<rparr>)
   \<and> normalizeSelection (Some ''  '') = []
   \<and> handleExplainRequest (\<lambda>s w. (Inr s, w\<lparr>upstreamCalls := upstreamCalls w + 1\<rparr>))
        (Some ''  '') \<lparr>upstreamCalls = 0\<rparr> =
       (Inl (EasyReadError ''Please select text first.'' ''NO_SELECTION'' False),
        \<lparr>upstreamCalls = 0\<rparr>)"
proof -
  let ?p = "\<lambda>s w. (Inr s :: easyReadError + string, w\<lparr>upstreamCalls := upstreamCalls w + 1\<rparr>)"
  have n1: "normalizeSelection (Some (replicate 12001 (CHR ''a''))) = replicate 12001 (CHR ''a'')"
    by (simp add: normalizeSelection_def trim_replicate_a)
  have n2: "normalizeSelection (Some (replicate 12000 (CHR ''a''))) = replicate 12000 (CHR ''a'')"
    by (simp add: normalizeSelection_def trim_replicate_a)
  have n3: "normalizeSelection (Some ''  '') = []"
    by (simp add: normalizeSelection_def trim_def isSpace_def)
  have s: "showNat 12001 = ''12001''"
    by (simp add: showNat.simps digitChar_def)
  show ?thesis
    using handleExplainRequest_validation [of "Some (replicate 12001 (CHR ''a''))" ?p "\<lparr>upstreamCalls = 0\<rparr>"]
      handleExplainRequest_validation [of "Some (replicate 12000 (CHR ''a''))" ?p "\<lparr>upstreamCalls = 0\<rparr>"]
      handleExplainRequest_validation [of "Some ''  ''" ?p "\<lparr>upstreamCalls = 0\<rparr>"]
    by (simp add: n1 n2 n3 s)
qed

subsection \<open>withExponentialBackoff\<close>










subsection \<open>buildCacheKey\<close>







text \<open>The digest has at most eight words, so the fingerprints are finitely many.\<close>

lemma length_compress: "length (compress hs block) \<le> length hs"
  by (simp add: compress_def)

lemma length_foldl_compress: "length (foldl compress hs bs) \<le> length hs"
proof (induction bs arbitrary: hs)
  case Nil
  then show ?case by simp
next
  case (Cons b bs)
  have "length (foldl compress (compress hs b) bs) \<le> length (compress hs b)" by (rule Cons.IH)
  also have "\<dots> \<le> length hs" by (rule length_compress)
  finally show ?case by simp
qed

lemma finite_range_sha256: "finite (range sha256)"
proof -
  have h: "length H256 \<le> 8" by (simp add: H256_def)
  have "length (sha256Digest bs) \<le> 8" for bs
    unfolding sha256Digest_def by (rule order_trans [OF length_foldl_compress h])
  then have "range sha256Digest \<subseteq> {ws. set ws \<subseteq> UNIV \<and> length ws \<le> 8}"
    by auto
  moreover have "finite {ws :: 32 word list. set ws \<subseteq> UNIV \<and> length ws \<le> 8}"
    by (rule finite_lists_length_le) simp
  ultimately have f: "finite (range sha256Digest)" by (rule finite_subset)
  have "range sha256 \<subseteq> (\<lambda>d. concat (map hexWord d)) ` range sha256Digest"
    by (auto simp: sha256_def)
  then show ?thesis using f by (meson finite_imageI finite_subset)
qed

text \<open>Different joined strings can still share a fingerprint: there are infinitely many
  separator-free tuples and finitely many digests.\<close>

lemma buildCacheKey_pigeonhole:
  "\<exists>p q. separatorFree p \<and> separatorFree q \<and> p \<noteq> q \<and> buildCacheKey p = buildCacheKey q"
proof -
  define mk where "mk t = \<lparr>keyPageOrigin = [], keySelectedText = replicate t (CHR ''a''), keyExplanationMode = [], keyModel = [],
      keyModelVersion = []\<rparr>" for t :: nat
  have "finite (range (\<lambda>t. buildCacheKey (mk t)))"
    by (rule finite_subset [OF _ finite_range_sha256]) (auto simp: buildCacheKey_def)
  then have "\<not> inj (\<lambda>t. buildCacheKey (mk t))"
    using finite_imageD infinite_UNIV_nat by blast
  then obtain t t' where "t \<noteq> t'" "buildCacheKey (mk t) = buildCacheKey (mk t')"
    by (auto simp: inj_on_def)
  moreover have "mk t \<noteq> mk t'" using \<open>t \<noteq> t'\<close> 
    by (auto simp: mk_def dest: arg_cong [where f = length])
  moreover have "separatorFree (mk t)" "separatorFree (mk t')" by (simp_all add: separatorFree_def mk_def)
  ultimately show ?thesis by blast
qed


subsection \<open>splitTextIntoChunks\<close>

lemma splitOn_nonempty [simp]: "splitOn d s \<noteq> []"
  by (cases s) (auto split: list.splits)

lemma joinWith_Cons_Cons: "joinWith sep ((c # w) # ws) = c # joinWith sep (w # ws)"
  by (cases ws) auto

lemma joinWith_splitOn: "joinWith [d] (splitOn d s) = s"
proof (induction s)
  case Nil
  show ?case by simp
next
  case (Cons c cs)
  obtain w ws where w: "splitOn d cs = w # ws" by (cases "splitOn d cs") auto
  show ?case using Cons w by (auto simp: joinWith_Cons_Cons)
qed

lemma splitOn_no_sep: "w \<in> set (splitOn d s) \<Longrightarrow> d \<notin> set w"
proof (induction s arbitrary: w)
  case Nil
  then show ?case by simp
next
  case (Cons c cs)
  obtain v vs where v: "splitOn d cs = v # vs" by (cases "splitOn d cs") auto
  show ?case using Cons v by (auto split: if_splits)
qed

lemma splitOn_append_sep: "splitOn d (a @ d # b) = splitOn d a @ splitOn d b"
proof (induction a)
  case Nil
  show ?case by simp
next
  case (Cons c a)
  obtain v vs where v: "splitOn d a = v # vs" by (cases "splitOn d a") auto
  show ?case using Cons v by auto
qed

lemma splitOn_single: "d \<notin> set a \<Longrightarrow> splitOn d a = [a]"
  by (induction a) auto

lemma joinWith_append:
  "xs \<noteq> [] \<Longrightarrow> ys \<noteq> [] \<Longrightarrow> joinWith sep (xs @ ys) = joinWith sep xs @ sep @ joinWith sep ys"
proof (induction sep xs rule: joinWith.induct)
  case (1 sep)
  then show ?case by simp
next
  case (2 sep x)
  then show ?case by (cases ys) auto
next
  case (3 sep x y ys)
  then show ?case by simp
qed

lemma joinWith_snoc: "xs \<noteq> [] \<Longrightarrow> joinWith sep (xs @ [y]) = joinWith sep xs @ sep @ y"
  by (simp add: joinWith_append)

lemma isSpace_space [simp]: "isSpace (CHR '' '')"
  by (simp add: isSpace_def)

lemma isWord_no_space: "isWord w \<Longrightarrow> CHR '' '' \<notin> set w"
  by (auto simp: isWord_def)

subsection \<open>Normalized text\<close>

lemma collapseFrom_only_space: "c \<in> set (collapseFrom b s) \<Longrightarrow> isSpace c \<Longrightarrow> c = CHR '' ''"
  by (induction s arbitrary: b) (auto split: if_splits)

lemma noDoubleSp_Cons:
  "noDoubleSp (a # x) \<longleftrightarrow> (x = [] \<or> \<not> (a = CHR '' '' \<and> hd x = CHR '' '')) \<and> noDoubleSp x"
  by (cases x) auto

lemma collapseFrom_noDouble:
  "noDoubleSp (collapseFrom b s)
   \<and> (b \<longrightarrow> collapseFrom b s = [] \<or> hd (collapseFrom b s) \<noteq> CHR '' '')"
proof (induction s arbitrary: b)
  case Nil
  show ?case by simp
next
  case (Cons c cs)
  show ?case
  proof (cases "isSpace c")
    case True
    then show ?thesis using Cons [of True] by (simp add: noDoubleSp_Cons)
  next
    case False
    then have "c \<noteq> CHR '' ''" by auto
    then show ?thesis using False Cons [of False] by (simp add: noDoubleSp_Cons)
  qed
qed

lemma noDoubleSp_suffix: "noDoubleSp (p @ x) \<Longrightarrow> noDoubleSp x"
  by (induction p) (auto simp: noDoubleSp_Cons)

lemma noDoubleSp_prefix: "noDoubleSp (x @ q) \<Longrightarrow> noDoubleSp x"
proof (induction x)
  case Nil
  show ?case by simp
next
  case (Cons a x)
  then show ?case by (cases x) (auto simp: noDoubleSp_Cons)
qed

lemma rev_dropWhile_takeWhile: "xs = rev (dropWhile P (rev xs)) @ rev (takeWhile P (rev xs))"
proof -
  have "rev (takeWhile P (rev xs) @ dropWhile P (rev xs)) = rev (rev xs)"
    by (simp only: takeWhile_dropWhile_id)
  then show ?thesis by (simp only: rev_append rev_rev_ident)
qed

lemma trim_decomp: "\<exists>p q. s = p @ trim s @ q"
proof -
  let ?xs = "dropWhile isSpace s"
  have x: "?xs = trim s @ rev (takeWhile isSpace (rev ?xs))"
    unfolding trim_def by (rule rev_dropWhile_takeWhile)
  have "s = takeWhile isSpace s @ ?xs" by simp
  with x have "s = takeWhile isSpace s @ trim s @ rev (takeWhile isSpace (rev ?xs))" by simp
  then show ?thesis by blast
qed

lemma trim_last: "trim s \<noteq> [] \<Longrightarrow> \<not> isSpace (last (trim s))"
proof -
  assume n: "trim s \<noteq> []"
  let ?ys = "dropWhile isSpace (rev (dropWhile isSpace s))"
  have y: "?ys \<noteq> []" using n by (simp add: trim_def)
  then have "\<not> isSpace (hd ?ys)" by (rule hd_dropWhile)
  moreover have "last (trim s) = hd ?ys" using y by (simp add: trim_def last_rev)
  ultimately show ?thesis by simp
qed

lemma trim_hd: "trim s \<noteq> [] \<Longrightarrow> \<not> isSpace (hd (trim s))"
proof -
  assume n: "trim s \<noteq> []"
  let ?xs = "dropWhile isSpace s"
  have x: "?xs = trim s @ rev (takeWhile isSpace (rev ?xs))"
    unfolding trim_def by (rule rev_dropWhile_takeWhile)
  have "?xs \<noteq> []"
  proof
    assume "?xs = []"
    then have "trim s = []" by (simp only: trim_def rev.simps dropWhile.simps)
    then show False using n by simp
  qed
  then have "\<not> isSpace (hd ?xs)" by (rule hd_dropWhile)
  moreover have "hd ?xs = hd (trim s)" using n by (subst x) simp
  ultimately show ?thesis by simp
qed

lemma trim_id: "s \<noteq> [] \<Longrightarrow> \<not> isSpace (hd s) \<Longrightarrow> \<not> isSpace (last s) \<Longrightarrow> trim s = s"
proof -
  assume s: "s \<noteq> []" "\<not> isSpace (hd s)" "\<not> isSpace (last s)"
  have a: "dropWhile isSpace s = s" using s(1,2) by (cases s) auto
  have "dropWhile isSpace (rev s) = rev s" using s(1,3) by (cases "rev s") (auto simp: last_rev hd_rev)
  then show ?thesis by (simp add: trim_def a)
qed

lemma splitOn_words:
  "noDoubleSp s \<Longrightarrow> (s \<noteq> [] \<longrightarrow> last s \<noteq> CHR '' '')
    \<Longrightarrow> [] \<notin> set (tl (splitOn (CHR '' '') s))
        \<and> (s \<noteq> [] \<and> hd s \<noteq> CHR '' '' \<longrightarrow> hd (splitOn (CHR '' '') s) \<noteq> [])"
proof (induction s)
  case Nil
  show ?case by simp
next
  case (Cons c cs)
  obtain v vs where v: "splitOn (CHR '' '') cs = v # vs" by (cases "splitOn (CHR '' '') cs") auto
  have nd: "noDoubleSp cs" using Cons.prems(1) by (simp add: noDoubleSp_Cons)
  have l: "cs \<noteq> [] \<longrightarrow> last cs \<noteq> CHR '' ''" using Cons.prems(2) by auto
  note IH = Cons.IH [OF nd l]
  show ?case
  proof (cases "c = CHR '' ''")
    case True
    then have "cs \<noteq> []" using Cons.prems(2) by auto
    moreover from this True have "hd cs \<noteq> CHR '' ''" using Cons.prems(1) by (simp add: noDoubleSp_Cons)
    ultimately show ?thesis using IH True v by auto
  next
    case False
    then show ?thesis using IH v by auto
  qed
qed

lemma set_concat_joinWith: "set (concat xs) \<subseteq> set (joinWith sep xs)"
  by (induction sep xs rule: joinWith.induct) auto

lemma normalized_words:
  assumes "normalizeWhitespace text \<noteq> []"
  shows "\<forall>w \<in> set (splitOn (CHR '' '') (normalizeWhitespace text)). isWord w"
proof -
  let ?n = "normalizeWhitespace text"
  obtain p q where pq: "collapseSpaces text = p @ ?n @ q"
    using trim_decomp [of "collapseSpaces text"] by (auto simp: normalizeWhitespace_def)
  have nd: "noDoubleSp ?n"
    using collapseFrom_noDouble [of False "text"] noDoubleSp_suffix [of p "?n @ q"] noDoubleSp_prefix [of "?n" q]
    by (simp add: collapseSpaces_def [symmetric] pq)
  have only: "c = CHR '' ''" if "c \<in> set ?n" "isSpace c" for c
  proof -
    have "c \<in> set (collapseFrom False text)" using that(1) pq by (simp add: collapseSpaces_def [symmetric])
    then show ?thesis using that(2) by (rule collapseFrom_only_space)
  qed
  have h: "\<not> isSpace (hd ?n)" and l: "\<not> isSpace (last ?n)"
    using assms trim_hd [of "collapseSpaces text"] trim_last [of "collapseSpaces text"]
    by (simp_all add: normalizeWhitespace_def)
  have hl: "hd ?n \<noteq> CHR '' ''" "last ?n \<noteq> CHR '' ''" using h l by auto
  obtain v vs where v: "splitOn (CHR '' '') ?n = v # vs" by (cases "splitOn (CHR '' '') ?n") auto
  have ne: "[] \<notin> set (splitOn (CHR '' '') ?n)"
    using splitOn_words [OF nd] hl assms v by auto
  show ?thesis
  proof
    fix w assume w: "w \<in> set (splitOn (CHR '' '') ?n)"
    have w1: "w \<noteq> []" using w ne by auto
    have w2: "CHR '' '' \<notin> set w" using w by (rule splitOn_no_sep)
    have sub: "set w \<subseteq> set ?n"
    proof -
      have "set (concat (splitOn (CHR '' '') ?n)) \<subseteq> set (joinWith [CHR '' ''] (splitOn (CHR '' '') ?n))"
        by (rule set_concat_joinWith)
      then show ?thesis using w by (auto simp: joinWith_splitOn)
    qed
    show "isWord w" unfolding isWord_def
    proof (intro conjI ballI)
      show "w \<noteq> []" by (rule w1)
    next
      fix c assume c: "c \<in> set w"
      show "\<not> isSpace c"
      proof
        assume "isSpace c"
        then have "c = CHR '' ''" using only c sub by auto
        then show False using w2 c by simp
      qed
    qed
  qed
qed

subsection \<open>The loop of splitTextIntoChunks, case by case\<close>

lemma chunkLoop_Nil [simp]:
  "chunkLoop targetChars maxChunks chunks current [] =
     (if current \<noteq> [] then chunks @ [current] else chunks)"
  by (rule chunkLoop.simps(1))

lemma chunkLoop_first:
  "current = []
   \<Longrightarrow> chunkLoop targetChars maxChunks chunks current (word # rest)
       = chunkLoop targetChars maxChunks chunks word rest"
  by (subst chunkLoop.simps) (simp only: Let_def if_True if_False simp_thms)

lemma chunkLoop_append:
  "current \<noteq> [] \<Longrightarrow> \<not> targetChars < int (length (current @ '' '' @ word))
   \<Longrightarrow> chunkLoop targetChars maxChunks chunks current (word # rest)
       = chunkLoop targetChars maxChunks chunks (current @ '' '' @ word) rest"
  by (subst chunkLoop.simps) (simp only: Let_def if_True if_False simp_thms)

lemma chunkLoop_push:
  "targetChars < int (length (current @ '' '' @ word)) \<Longrightarrow> current \<noteq> []
   \<Longrightarrow> \<not> maxChunks - 1 \<le> int (length (chunks @ [current]))
   \<Longrightarrow> chunkLoop targetChars maxChunks chunks current (word # rest)
       = chunkLoop targetChars maxChunks (chunks @ [current]) word rest"
  by (subst chunkLoop.simps) (simp only: Let_def if_True if_False simp_thms)

lemma chunkLoop_fold:
  "targetChars < int (length (current @ '' '' @ word)) \<Longrightarrow> current \<noteq> []
   \<Longrightarrow> maxChunks - 1 \<le> int (length (chunks @ [current]))
   \<Longrightarrow> chunkLoop targetChars maxChunks chunks current (word # rest)
       = (if trim (joinWith '' '' (word # rest)) \<noteq> []
          then chunks @ [current] @ [trim (joinWith '' '' (word # rest))] else chunks @ [current])"
  by (subst chunkLoop.simps) (simp only: Let_def if_True if_False simp_thms)

lemma chunkLoop_cases:
  obtains (first) "current = []"
  | (append) "current \<noteq> []" "\<not> targetChars < int (length (current @ '' '' @ word))"
  | (push) "targetChars < int (length (current @ '' '' @ word))" "current \<noteq> []"
      "\<not> maxChunks - 1 \<le> int (length (chunks @ [current]))"
  | (fold) "targetChars < int (length (current @ '' '' @ word))" "current \<noteq> []"
      "maxChunks - 1 \<le> int (length ((chunks :: string list) @ [current]))"
  by blast

lemma hd_joinWith: "w \<noteq> [] \<Longrightarrow> hd (joinWith sep (w # ws)) = hd w"
  by (cases ws) auto

lemma joinWith_last_nonempty: "ws \<noteq> [] \<Longrightarrow> last ws \<noteq> [] \<Longrightarrow> joinWith sep ws \<noteq> []"
  by (induction sep ws rule: joinWith.induct) auto

lemma last_joinWith: "ws \<noteq> [] \<Longrightarrow> last ws \<noteq> [] \<Longrightarrow> last (joinWith sep ws) = last (last ws)"
proof (induction sep ws rule: joinWith.induct)
  case (1 sep)
  then show ?case by simp
next
  case (2 sep x)
  then show ?case by simp
next
  case (3 sep x y ys)
  have "joinWith sep (y # ys) \<noteq> []" using 3(3) by (intro joinWith_last_nonempty) simp_all
  then show ?case using 3 by simp
qed

lemma joinWith_nonempty: "w \<noteq> [] \<Longrightarrow> joinWith sep (w # ws) \<noteq> []"
  by (cases ws) auto

lemma trim_join_words:
  assumes "\<forall>w \<in> set (word # rest). isWord w"
  shows "trim (joinWith '' '' (word # rest)) = joinWith '' '' (word # rest)"
proof (rule trim_id)
  have w: "word \<noteq> []" using assms by (simp add: isWord_def)
  show "joinWith '' '' (word # rest) \<noteq> []" using w by (rule joinWith_nonempty)
  have "\<not> isSpace (hd word)" using assms w by (simp add: isWord_def)
  then show "\<not> isSpace (hd (joinWith '' '' (word # rest)))" using w by (simp add: hd_joinWith)
  have l: "isWord (last (word # rest))" using assms last_in_set [of "word # rest"] by blast
  then have "last (word # rest) \<noteq> []" by (simp add: isWord_def)
  then have "last (joinWith '' '' (word # rest)) = last (last (word # rest))"
    by (intro last_joinWith) simp_all
  moreover have "\<not> isSpace (last (last (word # rest)))"
    using l by (simp add: isWord_def)
  ultimately show "\<not> isSpace (last (joinWith '' '' (word # rest)))" by simp
qed

lemma splitOn_joinWith_words:
  "ws \<noteq> [] \<Longrightarrow> \<forall>w \<in> set ws. d \<notin> set w \<Longrightarrow> splitOn d (joinWith [d] ws) = ws"
proof (induction "[d]" ws rule: joinWith.induct)
  case 1
  then show ?case by simp
next
  case (2 x)
  then show ?case by (simp add: splitOn_single)
next
  case (3 x y ys)
  then show ?case by (simp add: splitOn_append_sep splitOn_single)
qed

text \<open>The words of the chunks are the words put in, in order, each once.\<close>

lemma chunkLoop_words:
  assumes "\<forall>w \<in> set ws. isWord w"
  shows "concat (map (splitOn (CHR '' '')) (chunkLoop targetChars maxChunks chunks current ws))
       = concat (map (splitOn (CHR '' '')) chunks)
         @ (if current = [] then [] else splitOn (CHR '' '') current) @ ws"
  using assms
proof (induction ws arbitrary: chunks current)
  case Nil
  show ?case by simp
next
  case (Cons word rest)
  have word: "isWord word" and rest: "\<forall>w \<in> set rest. isWord w" using Cons.prems by simp_all
  have ns: "CHR '' '' \<notin> set word" using word by (rule isWord_no_space)
  have wne: "word \<noteq> []" using word by (simp add: isWord_def)
  have sw: "splitOn (CHR '' '') word = [word]" using ns by (rule splitOn_single)
  show ?case
  proof (cases rule: chunkLoop_cases [where targetChars = targetChars and current = current and word = word and maxChunks = maxChunks and chunks = chunks])
    case first
    show ?thesis
      unfolding chunkLoop_first [OF first] Cons.IH [OF rest]
      using wne sw first by simp
  next
    case append
    have "splitOn (CHR '' '') (current @ '' '' @ word) = splitOn (CHR '' '') current @ [word]"
      using splitOn_append_sep [of "CHR '' ''" current word] sw by simp
    then show ?thesis
      unfolding chunkLoop_append [OF append] Cons.IH [OF rest]
      using append(1) by simp
  next
    case push
    show ?thesis
      unfolding chunkLoop_push [OF push] Cons.IH [OF rest]
      using wne sw push(2) by simp
  next
    case fold
    have j: "trim (joinWith '' '' (word # rest)) = joinWith '' '' (word # rest)"
      using Cons.prems by (rule trim_join_words)
    have n: "joinWith '' '' (word # rest) \<noteq> []" using wne by (rule joinWith_nonempty)
    have "\<forall>w \<in> set (word # rest). CHR '' '' \<notin> set w"
      using Cons.prems isWord_no_space by blast
    then have s: "splitOn (CHR '' '') (joinWith '' '' (word # rest)) = word # rest"
      by (intro splitOn_joinWith_words) simp_all
    show ?thesis
      unfolding chunkLoop_fold [OF fold] j using n s fold(2) by simp
  qed
qed

lemma chunkLoop_length:
  "int (length chunks) < maxChunks - 1
   \<Longrightarrow> int (length (chunkLoop targetChars maxChunks chunks current ws)) \<le> maxChunks"
proof (induction ws arbitrary: chunks current)
  case Nil
  then show ?case by simp
next
  case (Cons word rest)
  show ?case
  proof (cases rule: chunkLoop_cases [where targetChars = targetChars and current = current and word = word and maxChunks = maxChunks and chunks = chunks])
    case first
    show ?thesis
      unfolding chunkLoop_first [OF first] using Cons.prems by (rule Cons.IH)
  next
    case append
    show ?thesis
      unfolding chunkLoop_append [OF append] using Cons.prems by (rule Cons.IH)
  next
    case push
    have "int (length (chunks @ [current])) < maxChunks - 1" using push(3) by simp
    then show ?thesis
      unfolding chunkLoop_push [OF push] by (rule Cons.IH)
  next
    case fold
    show ?thesis
      unfolding chunkLoop_fold [OF fold] using Cons.prems by simp
  qed
qed

lemma chunkLoop_nonempty:
  assumes "\<forall>w \<in> set ws. isWord w" "[] \<notin> set chunks"
  shows "[] \<notin> set (chunkLoop targetChars maxChunks chunks current ws)"
  using assms
proof (induction ws arbitrary: chunks current)
  case Nil
  then show ?case by simp
next
  case (Cons word rest)
  have rest: "\<forall>w \<in> set rest. isWord w" using Cons.prems by simp
  show ?case
  proof (cases rule: chunkLoop_cases [where targetChars = targetChars and current = current and word = word and maxChunks = maxChunks and chunks = chunks])
    case first
    show ?thesis
      unfolding chunkLoop_first [OF first] using rest Cons.prems(2) by (rule Cons.IH)
  next
    case append
    show ?thesis
      unfolding chunkLoop_append [OF append] using rest Cons.prems(2) by (rule Cons.IH)
  next
    case push
    have "[] \<notin> set (chunks @ [current])" using push(2) Cons.prems(2) by simp
    with rest show ?thesis
      unfolding chunkLoop_push [OF push] by (rule Cons.IH)
  next
    case fold
    show ?thesis
      unfolding chunkLoop_fold [OF fold] using Cons.prems(2) fold(2) by simp
  qed
qed

text \<open>Every chunk before the cap is within the target size, or is one word.\<close>

lemma chunkLoop_fits:
  assumes "\<forall>w \<in> set ws. isWord w" "\<forall>c \<in> set chunks. fits targetChars c"
    and "current \<noteq> [] \<longrightarrow> fits targetChars current"
  shows "\<forall>i < length (chunkLoop targetChars maxChunks chunks current ws).
           int i < maxChunks - 1 \<longrightarrow> fits targetChars (chunkLoop targetChars maxChunks chunks current ws ! i)"
  using assms
proof (induction ws arbitrary: chunks current)
  case Nil
  then show ?case by (auto simp: nth_append)
next
  case (Cons word rest)
  have word: "isWord word" and rest: "\<forall>w \<in> set rest. isWord w" using Cons.prems by simp_all
  have fw: "fits targetChars word" using word by (simp add: fits_def isWord_no_space)
  show ?case
  proof (cases rule: chunkLoop_cases [where targetChars = targetChars and current = current and word = word and maxChunks = maxChunks and chunks = chunks])
    case first
    show ?thesis
      unfolding chunkLoop_first [OF first] using rest Cons.prems(2) fw by (intro Cons.IH) simp_all
  next
    case append
    have "fits targetChars (current @ '' '' @ word)"
      unfolding fits_def using append(2) by linarith
    then show ?thesis
      unfolding chunkLoop_append [OF append] using rest Cons.prems(2) by (intro Cons.IH) simp_all
  next
    case push
    have "\<forall>c \<in> set (chunks @ [current]). fits targetChars c"
      using Cons.prems(2,3) push(2) by simp
    then show ?thesis
      unfolding chunkLoop_push [OF push] using rest fw by (intro Cons.IH) simp_all
  next
    case fold
    have all: "\<forall>c \<in> set (chunks @ [current]). fits targetChars c"
      using Cons.prems(2,3) fold(2) by simp
    show ?thesis
      unfolding chunkLoop_fold [OF fold]
    proof (intro allI impI)
      fix i
      let ?out = "if trim (joinWith '' '' (word # rest)) \<noteq> []
          then chunks @ [current] @ [trim (joinWith '' '' (word # rest))] else chunks @ [current]"
      assume i: "i < length ?out" "int i < maxChunks - 1"
      then have "i < length (chunks @ [current])" using fold(3) by simp
      then have o: "?out ! i = (chunks @ [current]) ! i"
        by (simp add: nth_append)
      have "(chunks @ [current]) ! i \<in> set (chunks @ [current])"
        using \<open>i < length (chunks @ [current])\<close> by (rule nth_mem)
      then show "fits targetChars (?out ! i)" using all o by metis
    qed
  qed
qed

text \<open>Between two chunks, the first word of the second did not fit into the first.\<close>

lemma firstWord_word: "CHR '' '' \<notin> set w \<Longrightarrow> firstWord w = w"
  by (induction w) (auto simp: firstWord_def)

lemma firstWord_append: "firstWord (c @ '' '' @ w) = firstWord c"
  by (induction c) (auto simp: firstWord_def)

lemma firstWord_join:
  assumes "CHR '' '' \<notin> set w"
  shows "firstWord (joinWith '' '' (w # ws)) = w"
proof (cases ws)
  case Nil
  then show ?thesis using assms by (simp add: firstWord_word)
next
  case (Cons v vs)
  have "takeWhile (\<lambda>x. x \<noteq> CHR '' '') (w @ CHR '' '' # joinWith '' '' (v # vs)) = w"
    using assms by (induction w) auto
  then show ?thesis using Cons by (simp add: firstWord_def)
qed

lemma nextWordOverflows_snoc2:
  "nextWordOverflows t (cs @ [c, d])
   \<longleftrightarrow> nextWordOverflows t (cs @ [c]) \<and> t < int (length (c @ '' '' @ firstWord d))"
  by (induction t cs rule: nextWordOverflows.induct) auto

lemma nextWordOverflows_last:
  "firstWord c = firstWord c' \<Longrightarrow> nextWordOverflows t (cs @ [c]) = nextWordOverflows t (cs @ [c'])"
proof (induction cs rule: rev_induct)
  case Nil
  show ?case by simp
next
  case (snoc x xs)
  then show ?case by (simp add: nextWordOverflows_snoc2)
qed

lemma chunkLoop_overflows:
  assumes "\<forall>w \<in> set ws. isWord w"
    and "current \<noteq> [] \<longrightarrow> nextWordOverflows targetChars (chunks @ [current])"
    and "current = [] \<longrightarrow> chunks = []"
  shows "nextWordOverflows targetChars (chunkLoop targetChars maxChunks chunks current ws)"
  using assms
proof (induction ws arbitrary: chunks current)
  case Nil
  then show ?case by auto
next
  case (Cons word rest)
  have word: "isWord word" and rest: "\<forall>w \<in> set rest. isWord w" using Cons.prems by simp_all
  have ns: "CHR '' '' \<notin> set word" using word by (rule isWord_no_space)
  have wne: "word \<noteq> []" using word by (simp add: isWord_def)
  show ?case
  proof (cases rule: chunkLoop_cases [where targetChars = targetChars and current = current and word = word and maxChunks = maxChunks and chunks = chunks])
    case first
    have "nextWordOverflows targetChars (chunks @ [word])"
      using first Cons.prems(3) by simp
    then show ?thesis
      unfolding chunkLoop_first [OF first] using rest wne by (intro Cons.IH) simp_all
  next
    case append
    have "firstWord (current @ '' '' @ word) = firstWord current"
      by (rule firstWord_append)
    then have "nextWordOverflows targetChars (chunks @ [current @ '' '' @ word])
        = nextWordOverflows targetChars (chunks @ [current])"
      by (rule nextWordOverflows_last)
    then have "nextWordOverflows targetChars (chunks @ [current @ '' '' @ word])"
      using Cons.prems(2) append(1) by simp
    then show ?thesis
      unfolding chunkLoop_append [OF append] using rest append(1) by (intro Cons.IH) simp_all
  next
    case push
    have "nextWordOverflows targetChars ((chunks @ [current]) @ [word])"
      using nextWordOverflows_snoc2 [of targetChars chunks current word] Cons.prems(2) push(1,2)
      by (simp add: firstWord_word [OF ns])
    then show ?thesis
      unfolding chunkLoop_push [OF push] using rest wne by (intro Cons.IH) simp_all
  next
    case fold
    have j: "trim (joinWith '' '' (word # rest)) = joinWith '' '' (word # rest)"
      using Cons.prems(1) by (rule trim_join_words)
    have n: "joinWith '' '' (word # rest) \<noteq> []" using wne by (rule joinWith_nonempty)
    have "nextWordOverflows targetChars (chunks @ [current, joinWith '' '' (word # rest)])"
      using Cons.prems(2) fold(1,2) firstWord_join [OF ns, of rest]
      by (simp only: nextWordOverflows_snoc2) simp
    then show ?thesis
      unfolding chunkLoop_fold [OF fold] j using n by simp
  qed
qed

lemma joinWith_concat_splitOn:
  "joinWith [d] (concat (map (splitOn d) cs)) = joinWith [d] cs"
proof (induction "[d]" cs rule: joinWith.induct)
  case 1
  show ?case by simp
next
  case (2 x)
  show ?case by (simp add: joinWith_splitOn)
next
  case (3 x y ys)
  have "concat (map (splitOn d) (y # ys)) \<noteq> []" by simp
  then have "joinWith [d] (splitOn d x @ concat (map (splitOn d) (y # ys)))
      = joinWith [d] (splitOn d x) @ [d] @ joinWith [d] (concat (map (splitOn d) (y # ys)))"
    by (intro joinWith_append) simp_all
  then show ?case using 3 by (simp add: joinWith_splitOn)
qed

text \<open>
  C1, as stated, fails for a cap below 2: the cap is only tested after a chunk has been
  pushed, and the remainder is then pushed as one more chunk.
\<close>

theorem splitTextIntoChunks_cap_counterexample:
  "splitTextIntoChunks ''aaa bbb ccc'' 3 1 = [''aaa'', ''bbb ccc'']
   \<and> \<not> int (length (splitTextIntoChunks ''aaa bbb ccc'' 3 1)) \<le> 1"
  by (simp add: splitTextIntoChunks_def normalizeWhitespace_def collapseSpaces_def trim_def
        isSpace_def chunkLoop.simps Let_def)

text \<open>
  C1, amended. For every text, target size and cap, the chunks of \<open>splitTextIntoChunks\<close>
  joined with single spaces are the white-space-normalized, trimmed text; their words are
  the words of that text, in order, each once; no chunk is empty. When the cap is at least
  2 (the caller passes 8) there are at most \<open>maxChunks\<close> chunks. The chunks are greedy:
  the first word of a chunk would not have fitted into the chunk before it, and every chunk
  before the \<open>maxChunks\<close>-th is within the target size or is a single word; the
  \<open>maxChunks\<close>-th chunk holds all the words left.
\<close>

theorem splitTextIntoChunks_chunks:
  "joinWith '' '' (splitTextIntoChunks text targetChars maxChunks) = normalizeWhitespace text
   \<and> concat (map (splitOn (CHR '' '')) (splitTextIntoChunks text targetChars maxChunks))
       = (if normalizeWhitespace text = [] then [] else splitOn (CHR '' '') (normalizeWhitespace text))
   \<and> [] \<notin> set (splitTextIntoChunks text targetChars maxChunks)
   \<and> (2 \<le> maxChunks \<longrightarrow> int (length (splitTextIntoChunks text targetChars maxChunks)) \<le> maxChunks)
   \<and> nextWordOverflows targetChars (splitTextIntoChunks text targetChars maxChunks)
   \<and> (\<forall>i < length (splitTextIntoChunks text targetChars maxChunks).
         int i < maxChunks - 1 \<longrightarrow> fits targetChars (splitTextIntoChunks text targetChars maxChunks ! i))"
proof (cases "normalizeWhitespace text = []")
  case True
  then show ?thesis by (simp add: splitTextIntoChunks_def)
next
  case False
  let ?ws = "splitOn (CHR '' '') (normalizeWhitespace text)"
  let ?out = "chunkLoop targetChars maxChunks [] [] ?ws"
  have out: "splitTextIntoChunks text targetChars maxChunks = ?out"
    using False by (simp add: splitTextIntoChunks_def)
  have ws: "\<forall>w \<in> set ?ws. isWord w" using False by (rule normalized_words)
  have words: "concat (map (splitOn (CHR '' '')) ?out) = ?ws"
    using chunkLoop_words [OF ws, of targetChars maxChunks "[]" "[]"] by simp
  have "joinWith '' '' (concat (map (splitOn (CHR '' '')) ?out)) = joinWith '' '' ?out"
    by (rule joinWith_concat_splitOn)
  then have joined: "joinWith '' '' ?out = normalizeWhitespace text"
    unfolding words by (simp add: joinWith_splitOn)
  have nonempty: "[] \<notin> set ?out"
    using ws by (rule chunkLoop_nonempty) simp
  have cap: "2 \<le> maxChunks \<longrightarrow> int (length ?out) \<le> maxChunks"
  proof
    assume "2 \<le> maxChunks"
    then have "int (length ([] :: string list)) < maxChunks - 1" by simp
    then show "int (length ?out) \<le> maxChunks" by (rule chunkLoop_length)
  qed
  have greedy: "nextWordOverflows targetChars ?out"
    using ws by (rule chunkLoop_overflows) simp_all
  have size: "\<forall>i < length ?out. int i < maxChunks - 1 \<longrightarrow> fits targetChars (?out ! i)"
    using ws by (rule chunkLoop_fits) simp_all
  show ?thesis
    unfolding out using False joined words nonempty cap greedy size by simp
qed

theorem splitTextIntoChunks_chunks_witness:
  "splitTextIntoChunks ''  aaa   bbb ccc dd e fffffffff g  '' 7 3 = [''aaa bbb'', ''ccc dd'', ''e fffffffff g'']
   \<and> joinWith '' '' [''aaa bbb'', ''ccc dd'', ''e fffffffff g''] = normalizeWhitespace ''  aaa   bbb ccc dd e fffffffff g  ''
   \<and> (2::int) \<le> 3 \<and> int (length [''aaa bbb'', ''ccc dd'', ''e fffffffff g'']) \<le> 3
   \<and> nextWordOverflows 7 [''aaa bbb'', ''ccc dd'', ''e fffffffff g'']
   \<and> fits 7 ''aaa bbb'' \<and> fits 7 ''ccc dd'' \<and> \<not> fits 7 ''e fffffffff g''"
proof -
  have e: "splitTextIntoChunks ''  aaa   bbb ccc dd e fffffffff g  '' 7 3 = [''aaa bbb'', ''ccc dd'', ''e fffffffff g'']"
    by (simp add: splitTextIntoChunks_def normalizeWhitespace_def collapseSpaces_def trim_def
        isSpace_def chunkLoop.simps Let_def)
  have f: "fits 7 ''aaa bbb''" "fits 7 ''ccc dd''" "\<not> fits 7 ''e fffffffff g''"
    by (simp_all add: fits_def)
  show ?thesis
    using splitTextIntoChunks_chunks [of "''  aaa   bbb ccc dd e fffffffff g  ''" 7 3] f
    unfolding e by simp
qed

subsection \<open>isExplanationTooCloseToSource\<close>

lemma take_length_prefix: "take (length sub) xs = sub \<longleftrightarrow> (\<exists>post. xs = sub @ post)"
proof
  assume "take (length sub) xs = sub"
  then have "xs = sub @ drop (length sub) xs" by (metis append_take_drop_id)
  then show "\<exists>post. xs = sub @ post" ..
next
  assume "\<exists>post. xs = sub @ post"
  then show "take (length sub) xs = sub" by auto
qed

lemma includesStr_iff: "includesStr s sub \<longleftrightarrow> (\<exists>pre post. s = pre @ sub @ post)"
proof (induction s)
  case Nil
  show ?case by auto
next
  case (Cons c cs)
  have "(\<exists>pre post. c # cs = pre @ sub @ post)
      \<longleftrightarrow> (\<exists>post. c # cs = sub @ post) \<or> (\<exists>pre post. cs = pre @ sub @ post)"
  proof
    assume "\<exists>pre post. c # cs = pre @ sub @ post"
    then obtain pre post where e: "c # cs = pre @ sub @ post" by blast
    show "(\<exists>post. c # cs = sub @ post) \<or> (\<exists>pre post. cs = pre @ sub @ post)"
    proof (cases pre)
      case Nil
      then show ?thesis using e by auto
    next
      case (Cons p ps)
      then have "cs = ps @ sub @ post" using e by simp
      then show ?thesis by blast
    qed
  next
    assume "(\<exists>post. c # cs = sub @ post) \<or> (\<exists>pre post. cs = pre @ sub @ post)"
    then show "\<exists>pre post. c # cs = pre @ sub @ post"
    proof
      assume "\<exists>post. c # cs = sub @ post"
      then obtain post where "c # cs = [] @ sub @ post" by auto
      then show ?thesis by blast
    next
      assume "\<exists>pre post. cs = pre @ sub @ post"
      then obtain pre post where "c # cs = (c # pre) @ sub @ post" by auto
      then show ?thesis by blast
    qed
  qed
  then show ?case using Cons take_length_prefix [of sub "c # cs"] by simp
qed

lemma set_foldl_setAdd:
  "set (foldl (\<lambda>acc i. setAdd acc (f i)) acc is) = set acc \<union> f ` set is"
  by (induction "is" arbitrary: acc) (auto simp: setAdd_def)

lemma distinct_foldl_setAdd:
  "distinct acc \<Longrightarrow> distinct (foldl (\<lambda>acc i. setAdd acc (f i)) acc is)"
  by (induction "is" arbitrary: acc) (auto simp: setAdd_def)

lemma ngrams_image:
  assumes "n \<le> length tokens"
  shows "ngrams n tokens = (\<lambda>i. take n (drop i tokens)) ` set [0 ..< length tokens - n + 1]"
proof -
  have "{i. i + n \<le> length tokens} = set [0 ..< length tokens - n + 1]"
    using assms by (auto simp del: upt_Suc)
  moreover have "ngrams n tokens = (\<lambda>i. take n (drop i tokens)) ` {i. i + n \<le> length tokens}"
    by (auto simp: ngrams_def)
  ultimately show ?thesis by (simp only:)
qed

lemma ngrams_empty: "length tokens < n \<Longrightarrow> ngrams n tokens = {}"
  by (auto simp: ngrams_def)

lemma finite_ngrams: "finite (ngrams n tokens)"
proof (cases "n \<le> length tokens")
  case True
  then show ?thesis by (simp only: ngrams_image) simp
next
  case False
  then show ?thesis by (simp add: ngrams_empty)
qed

lemma set_buildNgramSet: "set (buildNgramSet tokens n) = joinWith '' '' ` ngrams n tokens"
proof (cases "n \<le> length tokens")
  case True
  have b: "buildNgramSet tokens n
      = foldl (\<lambda>acc i. setAdd acc (joinWith '' '' (take n (drop i tokens)))) []
             [0 ..< length tokens - n + 1]"
    using True by (simp add: buildNgramSet_def del: upt_Suc)
  have "set (buildNgramSet tokens n)
      = (\<lambda>i. joinWith '' '' (take n (drop i tokens))) ` set [0 ..< length tokens - n + 1]"
    unfolding b by (simp only: set_foldl_setAdd list.set Un_empty_left)
  also have "\<dots> = joinWith '' '' ` ((\<lambda>i. take n (drop i tokens)) ` set [0 ..< length tokens - n + 1])"
    by (simp only: image_image)
  finally show ?thesis using True by (simp only: ngrams_image)
next
  case False
  then show ?thesis by (simp add: buildNgramSet_def ngrams_empty)
qed

lemma distinct_buildNgramSet: "distinct (buildNgramSet tokens n)"
proof -
  have "distinct (foldl (\<lambda>acc i. setAdd acc (joinWith '' '' (take n (drop i tokens)))) []
             [0 ..< length tokens - n + 1])"
    by (rule distinct_foldl_setAdd) simp
  then show ?thesis by (simp add: buildNgramSet_def del: upt_Suc)
qed

lemma ngram_shape: "g \<in> ngrams n tokens \<Longrightarrow> length g = n \<and> set g \<subseteq> set tokens"
  by (auto simp: ngrams_def dest: in_set_takeD in_set_dropD)

lemma joinWith_inj_on_ngrams:
  assumes "0 < n" "\<forall>t \<in> set ts. CHR '' '' \<notin> set t" "\<forall>t \<in> set ts'. CHR '' '' \<notin> set t"
  shows "inj_on (joinWith '' '') (ngrams n ts \<union> ngrams n ts')"
proof (rule inj_on_inverseI [where g = "splitOn (CHR '' '')"])
  fix g assume "g \<in> ngrams n ts \<union> ngrams n ts'"
  then have "length g = n" "set g \<subseteq> set ts \<union> set ts'"
    using ngram_shape by blast+
  then have "g \<noteq> []" "\<forall>w \<in> set g. CHR '' '' \<notin> set w"
    using assms by auto
  then show "splitOn (CHR '' '') (joinWith '' '' g) = g"
    by (rule splitOn_joinWith_words)
qed

lemma tokensOf_no_space: "\<forall>t \<in> set (tokensOf s). CHR '' '' \<notin> set t"
  by (auto simp: tokensOf_def dest: splitOn_no_sep)

lemma length_buildNgramSet:
  assumes "0 < n" "\<forall>t \<in> set ts. CHR '' '' \<notin> set t"
  shows "length (buildNgramSet ts n) = card (ngrams n ts)"
proof -
  have "inj_on (joinWith '' '') (ngrams n ts \<union> ngrams n ts)"
    using assms(1,2,2) by (rule joinWith_inj_on_ngrams)
  then have "card (joinWith '' '' ` ngrams n ts) = card (ngrams n ts)"
    by (simp add: card_image)
  then show ?thesis
    using distinct_card [OF distinct_buildNgramSet, of ts n] by (simp add: set_buildNgramSet)
qed

lemma overlap_card:
  assumes "0 < n" "\<forall>t \<in> set te. CHR '' '' \<notin> set t" "\<forall>t \<in> set ts. CHR '' '' \<notin> set t"
  shows "length (filter (\<lambda>gram. gram \<in> set (buildNgramSet ts n)) (buildNgramSet te n))
       = card (ngrams n te \<inter> ngrams n ts)"
proof -
  let ?J = "joinWith '' ''"
  have inj: "inj_on ?J (ngrams n te \<union> ngrams n ts)"
    using assms by (rule joinWith_inj_on_ngrams)
  have "length (filter (\<lambda>gram. gram \<in> set (buildNgramSet ts n)) (buildNgramSet te n))
      = card (set (filter (\<lambda>gram. gram \<in> set (buildNgramSet ts n)) (buildNgramSet te n)))"
    by (rule distinct_card [symmetric]) (simp add: distinct_buildNgramSet)
  also have "\<dots> = card (?J ` ngrams n te \<inter> ?J ` ngrams n ts)"
    by (simp add: set_buildNgramSet Int_def conj_commute)
  also have "?J ` ngrams n te \<inter> ?J ` ngrams n ts = ?J ` (ngrams n te \<inter> ngrams n ts)"
    using inj by (simp add: inj_on_image_Int)
  also have "card (?J ` (ngrams n te \<inter> ngrams n ts)) = card (ngrams n te \<inter> ngrams n ts)"
    by (rule card_image) (rule inj_on_subset [OF inj], blast)
  finally show ?thesis .
qed

lemma ngrams_nonempty: "n \<le> length ts \<Longrightarrow> ngrams n ts \<noteq> {}"
  by (auto simp: ngrams_def intro: exI [of _ 0])

lemma buildNgramSet_nonempty: "n \<le> length ts \<Longrightarrow> buildNgramSet ts n \<noteq> []"
proof -
  assume "n \<le> length ts"
  then have "set (buildNgramSet ts n) \<noteq> {}"
    by (simp add: set_buildNgramSet ngrams_nonempty)
  then show ?thesis by auto
qed

lemma isExplanationTooCloseToSource_unfold:
  "isExplanationTooCloseToSource explanation source \<longleftrightarrow>
     normalizeSimilarityText explanation \<noteq> [] \<and> normalizeSimilarityText source \<noteq> []
     \<and> (normalizeSimilarityText explanation = normalizeSimilarityText source
        \<or> (70 \<le> length (normalizeSimilarityText explanation)
            \<and> includesStr (normalizeSimilarityText source) (normalizeSimilarityText explanation))
        \<or> (20 \<le> length (tokensOf (normalizeSimilarityText explanation))
            \<and> 8 \<le> length (tokensOf (normalizeSimilarityText source))
            \<and> (55 :: rat) / 100
                \<le> of_nat (card (ngrams 4 (tokensOf (normalizeSimilarityText explanation))
                                 \<inter> ngrams 4 (tokensOf (normalizeSimilarityText source))))
                  / of_nat (card (ngrams 4 (tokensOf (normalizeSimilarityText explanation))))))"
proof -
  let ?e = "normalizeSimilarityText explanation" and ?s = "normalizeSimilarityText source"
  let ?te = "tokensOf ?e" and ?ts = "tokensOf ?s"
  have len: "length (buildNgramSet ?te 4) = card (ngrams 4 ?te)"
    by (rule length_buildNgramSet) (simp_all add: tokensOf_no_space)
  have ov: "length (filter (\<lambda>gram. gram \<in> set (buildNgramSet ?ts 4)) (buildNgramSet ?te 4))
       = card (ngrams 4 ?te \<inter> ngrams 4 ?ts)"
    by (rule overlap_card) (simp_all add: tokensOf_no_space)
  have pos: "0 < card (ngrams 4 ?te)" if "20 \<le> length ?te"
  proof -
    have "ngrams 4 ?te \<noteq> {}" using that by (intro ngrams_nonempty) simp
    then show ?thesis using finite_ngrams [of 4 ?te] by (simp add: card_gt_0_iff)
  qed
  have src: "length (buildNgramSet ?ts 4) \<noteq> 0" if "8 \<le> length ?ts"
    using buildNgramSet_nonempty [of 4 ?ts] that by simp
  show ?thesis
  proof (cases "?e = [] \<or> ?s = []")
    case True
    then show ?thesis by (auto simp: isExplanationTooCloseToSource_def)
  next
    case ne: False
    show ?thesis
    proof (cases "?e = ?s \<or> (70 \<le> length ?e \<and> includesStr ?s ?e)")
      case True
      then show ?thesis using ne by (auto simp: isExplanationTooCloseToSource_def)
    next
      case nc: False
      show ?thesis
      proof (cases "20 \<le> length ?te \<and> 8 \<le> length ?ts")
        case True
        then have "0 < card (ngrams 4 ?te)" "length (buildNgramSet ?ts 4) \<noteq> 0" "\<not> length ?te < 8"
          using pos src by auto
        then show ?thesis
          using ne nc True unfolding isExplanationTooCloseToSource_def Let_def ov len
          by auto
      next
        case False
        then show ?thesis
          using ne nc unfolding isExplanationTooCloseToSource_def Let_def
          by auto
      qed
    qed
  qed
qed

text \<open>
  C2, as stated, fails twice. A text identical to the source is not rejected when its
  normal form is empty (no letter or digit of \<open>[a-z0-9]\<close> in it). And the overlap test
  asks for 20 tokens in the explanation only: the source needs 8, so an explanation of 24
  tokens that repeats a source of 8 tokens is classified as a copy though it is neither
  equal to the source nor a part of it.
\<close>

theorem isExplanationTooCloseToSource_counterexample:
  "\<not> isExplanationTooCloseToSource ''!!!'' ''!!!''
   \<and> isExplanationTooCloseToSource repeatedSource ''a b c d e f g h''
   \<and> length (tokensOf (normalizeSimilarityText ''a b c d e f g h'')) = 8
   \<and> normalizeSimilarityText repeatedSource \<noteq> normalizeSimilarityText ''a b c d e f g h''
   \<and> \<not> includesStr (normalizeSimilarityText ''a b c d e f g h'') (normalizeSimilarityText repeatedSource)"
  by code_simp

text \<open>
  C2, amended. With both texts lower-cased, stripped of everything outside
  \<open>[a-z0-9\s']\<close>, white space collapsed and trimmed, the guard classifies the
  explanation as a copy exactly when both normal forms are non-empty and the explanation
  equals the source, or has at least 70 characters and occurs in the source, or has at
  least 20 tokens while the source has at least 8 and at least 55% of the explanation's
  distinct 4-grams are 4-grams of the source. In particular an explanation identical to the
  source is rejected whenever its normal form is not empty.
\<close>

theorem isExplanationTooCloseToSource_iff:
  "(isExplanationTooCloseToSource explanation selectedText \<longleftrightarrow>
      normalizeSimilarityText explanation \<noteq> [] \<and> normalizeSimilarityText selectedText \<noteq> []
      \<and> (normalizeSimilarityText explanation = normalizeSimilarityText selectedText
         \<or> (70 \<le> length (normalizeSimilarityText explanation)
             \<and> (\<exists>pre post. normalizeSimilarityText selectedText
                    = pre @ normalizeSimilarityText explanation @ post))
         \<or> (20 \<le> length (tokensOf (normalizeSimilarityText explanation))
             \<and> 8 \<le> length (tokensOf (normalizeSimilarityText selectedText))
             \<and> (55 :: rat) / 100
                 \<le> of_nat (card (ngrams 4 (tokensOf (normalizeSimilarityText explanation))
                                  \<inter> ngrams 4 (tokensOf (normalizeSimilarityText selectedText))))
                   / of_nat (card (ngrams 4 (tokensOf (normalizeSimilarityText explanation)))))))
   \<and> (normalizeSimilarityText selectedText \<noteq> []
         \<longrightarrow> isExplanationTooCloseToSource selectedText selectedText)"
  unfolding isExplanationTooCloseToSource_unfold includesStr_iff by simp

theorem isExplanationTooCloseToSource_iff_witness:
  "normalizeSimilarityText ''Hello there'' = ''hello there''
   \<and> isExplanationTooCloseToSource ''Hello there'' ''Hello there''
   \<and> isExplanationTooCloseToSource ''hello, THERE!'' ''Hello there''
   \<and> \<not> isExplanationTooCloseToSource ''A greeting.'' ''Hello there''"
proof -
  have n: "normalizeSimilarityText ''Hello there'' = ''hello there''"
    "normalizeSimilarityText ''hello, THERE!'' = ''hello there''"
    "normalizeSimilarityText ''A greeting.'' = ''a greeting''"
    by code_simp+
  have t: "tokensOf ''a greeting'' = [''a'', ''greeting'']"
    by code_simp
  show ?thesis
    using isExplanationTooCloseToSource_iff [of "''Hello there''" "''Hello there''"]
      isExplanationTooCloseToSource_iff [of "''hello, THERE!''" "''Hello there''"]
      isExplanationTooCloseToSource_iff [of "''A greeting.''" "''Hello there''"]
    unfolding n t by simp
qed

subsection \<open>findHardWords\<close>

lemma endsWith_iff: "endsWith s suffix \<longleftrightarrow> (\<exists>stem. s = stem @ suffix)"
proof
  assume "endsWith s suffix"
  then have "s = take (length s - length suffix) s @ suffix"
    by (metis append_take_drop_id endsWith_def)
  then show "\<exists>stem. s = stem @ suffix" ..
next
  assume "\<exists>stem. s = stem @ suffix"
  then show "endsWith s suffix" by (auto simp: endsWith_def)
qed

lemma suffixRuleAllows_iff:
  "suffixRuleAllows lower L (suffix, minLen) \<longleftrightarrow>
     (\<exists>stem. lower = stem @ suffix \<and> minLen < length stem
        \<and> (stem \<in> L \<or> (suffix \<in> {''ing'', ''ed'', ''es''} \<and> stem @ ''e'' \<in> L)))"
proof
  assume a: "suffixRuleAllows lower L (suffix, minLen)"
  then obtain stem where s: "lower = stem @ suffix"
    by (auto simp: suffixRuleAllows_def endsWith_iff)
  then have t: "take (length lower - length suffix) lower = stem" by simp
  show "\<exists>stem. lower = stem @ suffix \<and> minLen < length stem
        \<and> (stem \<in> L \<or> (suffix \<in> {''ing'', ''ed'', ''es''} \<and> stem @ ''e'' \<in> L))"
    using a s unfolding suffixRuleAllows_def prod.case Let_def t by (intro exI [of _ stem]) auto
next
  assume "\<exists>stem. lower = stem @ suffix \<and> minLen < length stem
        \<and> (stem \<in> L \<or> (suffix \<in> {''ing'', ''ed'', ''es''} \<and> stem @ ''e'' \<in> L))"
  then obtain stem where s: "lower = stem @ suffix" "minLen < length stem"
    "stem \<in> L \<or> (suffix \<in> {''ing'', ''ed'', ''es''} \<and> stem @ ''e'' \<in> L)" by blast
  have t: "take (length lower - length suffix) lower = stem" using s(1) by simp
  have e: "endsWith lower suffix" using s(1) by (auto simp: endsWith_iff)
  show "suffixRuleAllows lower L (suffix, minLen)"
    unfolding suffixRuleAllows_def prod.case Let_def t using e s by auto
qed

lemma isAllowedVariation_iff:
  assumes "normalizeToken token \<noteq> []"
  shows "isAllowedVariation token L \<longleftrightarrow> allowedVariationSpec (normalizeToken token) L"
proof -
  let ?l = "normalizeToken token"
  have p: "endsWith ?l [apostrophe, CHR ''s''] \<and> take (length ?l - 2) ?l \<in> L
        \<longleftrightarrow> (\<exists>base. ?l = base @ [apostrophe, CHR ''s''] \<and> base \<in> L)"
  proof
    assume a: "endsWith ?l [apostrophe, CHR ''s''] \<and> take (length ?l - 2) ?l \<in> L"
    then obtain base where b: "?l = base @ [apostrophe, CHR ''s'']" by (auto simp: endsWith_iff)
    then have "take (length ?l - 2) ?l = base" by simp
    then show "\<exists>base. ?l = base @ [apostrophe, CHR ''s''] \<and> base \<in> L" using a b by metis
  next
    assume "\<exists>base. ?l = base @ [apostrophe, CHR ''s''] \<and> base \<in> L"
    then obtain base where b: "?l = base @ [apostrophe, CHR ''s'']" "base \<in> L" by blast
    then have "take (length ?l - 2) ?l = base" by simp
    then show "endsWith ?l [apostrophe, CHR ''s''] \<and> take (length ?l - 2) ?l \<in> L"
      using b by (auto simp: endsWith_iff)
  qed
  have r: "list_ex (suffixRuleAllows ?l L) suffixRules
        \<longleftrightarrow> (\<exists>(suffix, minLen) \<in> set suffixRules. \<exists>stem.
           ?l = stem @ suffix \<and> minLen < length stem
           \<and> (stem \<in> L \<or> (suffix \<in> {''ing'', ''ed'', ''es''} \<and> stem @ ''e'' \<in> L)))"
    unfolding list_ex_iff by (intro bex_cong refl) (auto simp: suffixRuleAllows_iff)
  show ?thesis
    unfolding isAllowedVariation_def Let_def allowedVariationSpec_def p [symmetric] r [symmetric]
    using assms by auto
qed

subsection \<open>Tokens\<close>

lemma list_all_takeWhile: "list_all P (takeWhile P xs)"
  by (induction xs) auto

lemma matchTokens_skip:
  "\<not> isAsciiLetter c \<Longrightarrow> matchTokens (c # cs) = matchTokens cs"
  by (subst matchTokens.simps) (simp only: if_False)

lemma matchTokens_end:
  "isAsciiLetter c \<Longrightarrow> dropWhile isAsciiLetter cs = []
   \<Longrightarrow> matchTokens (c # cs) = [c # takeWhile isAsciiLetter cs]"
  by (subst matchTokens.simps) (simp only: if_True list.case)

lemma matchTokens_apostrophe:
  "isAsciiLetter c \<Longrightarrow> dropWhile isAsciiLetter cs = q # rest
   \<Longrightarrow> q = apostrophe \<and> takeWhile isAsciiLetter rest \<noteq> []
   \<Longrightarrow> matchTokens (c # cs)
       = (c # takeWhile isAsciiLetter cs @ [q] @ takeWhile isAsciiLetter rest)
           # matchTokens (dropWhile isAsciiLetter rest)"
  by (subst matchTokens.simps) (simp only: if_True list.case simp_thms)

lemma matchTokens_plain:
  "isAsciiLetter c \<Longrightarrow> dropWhile isAsciiLetter cs = q # rest
   \<Longrightarrow> \<not> (q = apostrophe \<and> takeWhile isAsciiLetter rest \<noteq> [])
   \<Longrightarrow> matchTokens (c # cs) = (c # takeWhile isAsciiLetter cs) # matchTokens (q # rest)"
  by (subst matchTokens.simps) (simp only: if_True if_False list.case simp_thms)

lemma matchTokens_isToken: "t \<in> set (matchTokens text) \<Longrightarrow> isToken t"
proof (induction "text" arbitrary: t rule: matchTokens.induct)
  case 1
  then show ?case by (simp add: matchTokens.simps)
next
  case (2 c cs)
  show ?case
  proof (cases "isAsciiLetter c")
    case False
    then have "matchTokens (c # cs) = matchTokens cs" by (rule matchTokens_skip)
    then show ?thesis using 2(3)[OF False] 2(4) by simp
  next
    case True
    let ?a = "c # takeWhile isAsciiLetter cs"
    have a: "?a \<noteq> []" "list_all isAsciiLetter ?a" using True by (simp_all add: list_all_takeWhile)
    have ta: "isToken ?a" unfolding isToken_def using a by blast
    show ?thesis
    proof (cases "dropWhile isAsciiLetter cs")
      case Nil
      with True have "matchTokens (c # cs) = [?a]" by (rule matchTokens_end)
      then show ?thesis using 2(4) ta by simp
    next
      case (Cons q rest)
      let ?b = "takeWhile isAsciiLetter rest"
      show ?thesis
      proof (cases "q = apostrophe \<and> ?b \<noteq> []")
        case yes: True
        have m: "matchTokens (c # cs) = (?a @ [q] @ ?b) # matchTokens (dropWhile isAsciiLetter rest)"
          using matchTokens_apostrophe [OF True Cons yes] by simp
        have "isToken (?a @ [apostrophe] @ ?b)"
          unfolding isToken_def using a yes list_all_takeWhile [of isAsciiLetter rest] by blast
        then have "isToken (?a @ [q] @ ?b)" using yes by simp
        then show ?thesis using 2(4) 2(1)[OF True Cons yes] unfolding m by auto
      next
        case no: False
        have m: "matchTokens (c # cs) = ?a # matchTokens (q # rest)"
          using True Cons no by (rule matchTokens_plain)
        show ?thesis using 2(4) 2(2)[OF True Cons no] ta unfolding m by auto
      qed
    qed
  qed
qed

lemma letter_facts:
  assumes "isAsciiLetter c"
  shows "\<not> isDigit c" "c \<noteq> apostrophe" "c \<noteq> CHR ''-''" "toLowerChar c \<noteq> apostrophe"
  using assms
  by (auto simp: isAsciiLetter_def isUpperAZ_def isLowerAz_def isDigit_def apostrophe_def
        toLowerChar_def upperCaseChars_def lowerCaseChars_def)

lemma dropWhile_ends_id:
  assumes "xs \<noteq> []" "\<not> P (hd xs)" "\<not> P (last xs)"
  shows "rev (dropWhile P (rev (dropWhile P xs))) = xs"
proof -
  have a: "dropWhile P xs = xs" using assms(1,2) by (cases xs) auto
  have "dropWhile P (rev xs) = rev xs" using assms(1,3) by (cases "rev xs") (auto simp: last_rev hd_rev)
  then show ?thesis by (simp add: a)
qed

lemma isToken_ends:
  assumes "isToken t"
  shows "t \<noteq> []" "isAsciiLetter (hd t)" "isAsciiLetter (last t)" "CHR ''-'' \<notin> set t"
proof -
  from assms obtain a b where ab: "a \<noteq> []" "list_all isAsciiLetter a"
    "t = a \<or> (b \<noteq> [] \<and> list_all isAsciiLetter b \<and> t = a @ [apostrophe] @ b)"
    unfolding isToken_def by blast
  have ha: "isAsciiLetter (hd a)" "isAsciiLetter (last a)"
    using ab(1,2) by (simp_all add: list_all_iff)
  show "t \<noteq> []" using ab by auto
  show "isAsciiLetter (hd t)" using ab ha by auto
  show "isAsciiLetter (last t)"
  proof (cases "t = a")
    case True
    then show ?thesis using ha by simp
  next
    case False
    then have b: "b \<noteq> []" "list_all isAsciiLetter b" "t = a @ [apostrophe] @ b" using ab(3) by auto
    then have "last t = last b" by simp
    then show ?thesis using b(1,2) by (simp add: list_all_iff)
  qed
  show "CHR ''-'' \<notin> set t"
  proof
    assume "CHR ''-'' \<in> set t"
    then have "CHR ''-'' \<in> set a \<or> CHR ''-'' = apostrophe \<or> (CHR ''-'' \<in> set b \<and> list_all isAsciiLetter b)"
      using ab(3) by auto
    then show False
      using ab(2) letter_facts(3) by (auto simp: list_all_iff apostrophe_def)
  qed
qed

lemma isToken_not_number: "isToken t \<Longrightarrow> \<not> isNumberLike t"
proof -
  assume t: "isToken t"
  then obtain c cs where c: "t = c # cs" using isToken_ends(1) by (cases t) auto
  then have "\<not> isDigit c" using isToken_ends(2) [OF t] letter_facts(1) by simp
  then show ?thesis by (simp add: isNumberLike_def c)
qed

lemma isToken_normalize: "isToken t \<Longrightarrow> normalizeToken t = toLowerCase t"
proof -
  assume t: "isToken t"
  note e = isToken_ends [OF t]
  have n: "toLowerCase t \<noteq> []" using e(1) by (simp add: toLowerCase_def)
  have h: "hd (toLowerCase t) = toLowerChar (hd t)" using e(1) by (simp add: toLowerCase_def hd_map)
  have l: "last (toLowerCase t) = toLowerChar (last t)" using e(1) by (simp add: toLowerCase_def last_map)
  show ?thesis
    unfolding normalizeToken_def
    by (rule dropWhile_ends_id) (simp_all add: n h l letter_facts(4) e)
qed

lemma isToken_properNoun:
  "isToken t \<Longrightarrow> looksLikeProperNoun t \<longleftrightarrow> 2 \<le> length t \<and> list_all isUpperAZ t"
proof -
  assume t: "isToken t"
  have "splitOn (CHR ''-'') t = [t]" using isToken_ends(4) [OF t] by (rule splitOn_single)
  then show ?thesis using isToken_ends(1) [OF t] by (simp add: looksLikeProperNoun_def)
qed

subsection \<open>The loop of findHardWords\<close>

lemma set_findHardWords_loop:
  "set (foldl (\<lambda>hardWords token.
        if skip token then hardWords
        else if \<not> allowed token then setAdd hardWords (f token)
        else hardWords) acc tokens)
   = set acc \<union> {f token | token. token \<in> set tokens \<and> \<not> skip token \<and> \<not> allowed token}"
  by (induction tokens arbitrary: acc) (auto simp: setAdd_def)

lemma distinct_findHardWords_loop:
  "distinct acc \<Longrightarrow> distinct (foldl (\<lambda>hardWords token.
        if skip token then hardWords
        else if \<not> allowed token then setAdd hardWords (f token)
        else hardWords) acc tokens)"
  by (induction tokens arbitrary: acc) (auto simp: setAdd_def)

text \<open>
  C8, as stated, fails: a suffix rule applies only to a word longer than the suffix plus
  the rule's minimum. \<open>going\<close> is \<open>go\<close> followed by \<open>ing\<close> and \<open>making\<close> is \<open>mak\<close>
  followed by \<open>ing\<close> with \<open>make\<close> in the lexicon, and both are reported as difficult.
\<close>

theorem findHardWords_short_stem_counterexample:
  "findHardWords ''going'' {''go''} = [''going'']
   \<and> ''going'' = ''go'' @ ''ing'' \<and> ''go'' \<in> {''go''}
   \<and> findHardWords ''making'' {''make''} = [''making'']
   \<and> ''making'' = ''mak'' @ ''ing'' \<and> ''mak'' @ ''e'' \<in> {''make''}"
  by code_simp

text \<open>
  C8, amended. The tokens are runs of letters with at most one apostrophe inside; none is
  numeric, and a token has the shape of a proper noun exactly when it is two or more capital
  letters (a token has no hyphen). \<open>findHardWords\<close> returns, without duplicates, the
  lower-case forms of the tokens of more than 2 characters that do not have the shape of a
  proper noun and are not an allowed variation: not in the lexicon, not a lexicon word
  followed by \<open>'s\<close>, and not a stem followed by one of \<open>ing, ed, es, s, er, est, ly\<close> with
  the stem longer than 3, 2, 2, 1, 2, 3, 2 characters and the stem (or, for \<open>ing\<close>, \<open>ed\<close>,
  \<open>es\<close>, the stem followed by \<open>e\<close>) in the lexicon.
\<close>

theorem findHardWords_difficult:
  "(w \<in> set (findHardWords text easyWordSet) \<longleftrightarrow>
      (\<exists>token \<in> set (matchTokens text).
         2 < length token \<and> \<not> looksLikeProperNoun token \<and> w = toLowerCase token
         \<and> \<not> allowedVariationSpec (toLowerCase token) easyWordSet))
   \<and> distinct (findHardWords text easyWordSet)
   \<and> (\<forall>token \<in> set (matchTokens text).
         isToken token \<and> \<not> isNumberLike token \<and> normalizeToken token = toLowerCase token
         \<and> (looksLikeProperNoun token \<longleftrightarrow> 2 \<le> length token \<and> list_all isUpperAZ token))"
proof -
  let ?skip = "\<lambda>token. length token \<le> 2 \<or> isNumberLike token \<or> looksLikeProperNoun token"
  let ?allowed = "\<lambda>token. isAllowedVariation token easyWordSet"
  have tok: "isToken token \<and> \<not> isNumberLike token \<and> normalizeToken token = toLowerCase token
         \<and> (looksLikeProperNoun token \<longleftrightarrow> 2 \<le> length token \<and> list_all isUpperAZ token)"
    if "token \<in> set (matchTokens text)" for token
  proof -
    have t: "isToken token" using that by (rule matchTokens_isToken)
    show ?thesis
      using t isToken_not_number [OF t] isToken_normalize [OF t] isToken_properNoun [OF t] by blast
  qed
  have allowed: "?allowed token \<longleftrightarrow> allowedVariationSpec (toLowerCase token) easyWordSet"
    if "token \<in> set (matchTokens text)" for token
  proof -
    have t: "isToken token" using that by (rule matchTokens_isToken)
    have n: "normalizeToken token = toLowerCase token" using t by (rule isToken_normalize)
    have "toLowerCase token \<noteq> []" using isToken_ends(1) [OF t] by (simp add: toLowerCase_def)
    then show ?thesis using isAllowedVariation_iff [of token easyWordSet] n by simp
  qed
  have s: "set (findHardWords text easyWordSet)
      = {normalizeToken token | token. token \<in> set (matchTokens text) \<and> \<not> ?skip token \<and> \<not> ?allowed token}"
    unfolding findHardWords_def
    using set_findHardWords_loop [of ?skip ?allowed normalizeToken "[]" "matchTokens text"]
    by simp
  have m: "w \<in> set (findHardWords text easyWordSet) \<longleftrightarrow>
      (\<exists>token \<in> set (matchTokens text).
         2 < length token \<and> \<not> looksLikeProperNoun token \<and> w = toLowerCase token
         \<and> \<not> allowedVariationSpec (toLowerCase token) easyWordSet)"
  proof
    assume "w \<in> set (findHardWords text easyWordSet)"
    then obtain token where t: "token \<in> set (matchTokens text)" "w = normalizeToken token"
      "\<not> ?skip token" "\<not> ?allowed token"
      unfolding s by blast
    have "2 < length token \<and> \<not> looksLikeProperNoun token \<and> w = toLowerCase token
         \<and> \<not> allowedVariationSpec (toLowerCase token) easyWordSet"
      using t(2,3,4) tok [OF t(1)] allowed [OF t(1)] by auto
    then show "\<exists>token \<in> set (matchTokens text).
         2 < length token \<and> \<not> looksLikeProperNoun token \<and> w = toLowerCase token
         \<and> \<not> allowedVariationSpec (toLowerCase token) easyWordSet"
      using t(1) by blast
  next
    assume "\<exists>token \<in> set (matchTokens text).
         2 < length token \<and> \<not> looksLikeProperNoun token \<and> w = toLowerCase token
         \<and> \<not> allowedVariationSpec (toLowerCase token) easyWordSet"
    then obtain token where t: "token \<in> set (matchTokens text)" "2 < length token"
      "\<not> looksLikeProperNoun token" "w = toLowerCase token"
      "\<not> allowedVariationSpec (toLowerCase token) easyWordSet" by blast
    have "w = normalizeToken token \<and> \<not> ?skip token \<and> \<not> ?allowed token"
      using t(2,3,4,5) tok [OF t(1)] allowed [OF t(1)] by auto
    then show "w \<in> set (findHardWords text easyWordSet)"
      unfolding s using t(1) by blast
  qed
  have d: "distinct (findHardWords text easyWordSet)"
    unfolding findHardWords_def by (rule distinct_findHardWords_loop) simp
  show ?thesis using m d tok by blast
qed

theorem findHardWords_difficult_witness:
  "findHardWords ''making walking NASA'' {''make'', ''walk''} = [''making'']
   \<and> matchTokens ''making walking NASA'' = [''making'', ''walking'', ''NASA'']
   \<and> (\<exists>token \<in> set (matchTokens ''making walking NASA'').
         2 < length token \<and> \<not> looksLikeProperNoun token \<and> ''making'' = toLowerCase token
         \<and> \<not> allowedVariationSpec (toLowerCase token) {''make'', ''walk''})
   \<and> \<not> (\<exists>token \<in> set (matchTokens ''making walking NASA'').
         2 < length token \<and> \<not> looksLikeProperNoun token \<and> ''walking'' = toLowerCase token
         \<and> \<not> allowedVariationSpec (toLowerCase token) {''make'', ''walk''})
   \<and> isToken ''NASA'' \<and> looksLikeProperNoun ''NASA''"
proof -
  have e: "findHardWords ''making walking NASA'' {''make'', ''walk''} = [''making'']"
    by code_simp
  have m: "matchTokens ''making walking NASA'' = [''making'', ''walking'', ''NASA'']"
    by code_simp
  have n: "''NASA'' \<in> set (matchTokens ''making walking NASA'')" unfolding m by simp
  have p: "looksLikeProperNoun ''NASA''" by code_simp
  note t1 = findHardWords_difficult [of "''making''" "''making walking NASA''" "{''make'', ''walk''}"]
  note t2 = findHardWords_difficult [of "''walking''" "''making walking NASA''" "{''make'', ''walk''}"]
  have a: "\<exists>token \<in> set (matchTokens ''making walking NASA'').
         2 < length token \<and> \<not> looksLikeProperNoun token \<and> ''making'' = toLowerCase token
         \<and> \<not> allowedVariationSpec (toLowerCase token) {''make'', ''walk''}"
    using t1 [THEN conjunct1] unfolding e by simp
  have b: "\<not> (\<exists>token \<in> set (matchTokens ''making walking NASA'').
         2 < length token \<and> \<not> looksLikeProperNoun token \<and> ''walking'' = toLowerCase token
         \<and> \<not> allowedVariationSpec (toLowerCase token) {''make'', ''walk''})"
    using t2 [THEN conjunct1] unfolding e by simp
  have c: "isToken ''NASA''"
    using t1 [THEN conjunct2, THEN conjunct2] n by blast
  show ?thesis using e m a b c p by blast
qed

subsection \<open>parseAndNormalizeResponse\<close>

lemma trim_Nil [simp]: "trim [] = []"
  by (simp add: trim_def)

lemma trim_idem: "trim (trim s) = trim s"
proof (cases "trim s = []")
  case True
  then show ?thesis by simp
next
  case False
  then show ?thesis by (intro trim_id trim_hd trim_last)
qed

lemma normalizeString_trimmed: "trim (normalizeString v) = normalizeString v"
  by (induction v rule: normalizeString.induct) (simp_all add: trim_idem)

lemma indexOfChar_append: "c \<notin> set pre \<Longrightarrow> indexOfChar c (pre @ c # rest) = Some (length pre)"
  by (induction pre) auto

lemma indexOfChar_None: "indexOfChar c s = None \<longleftrightarrow> c \<notin> set s"
  by (induction s) auto

lemma indexOfChar_Some:
  "indexOfChar c s = Some i \<Longrightarrow> \<exists>pre rest. s = pre @ c # rest \<and> c \<notin> set pre \<and> i = length pre"
proof (induction s arbitrary: i)
  case Nil
  then show ?case by simp
next
  case (Cons x xs)
  show ?case
  proof (cases "x = c")
    case True
    then have "x # xs = [] @ c # xs \<and> c \<notin> set [] \<and> i = length ([] :: string)"
      using Cons.prems by simp
    then show ?thesis by blast
  next
    case False
    then obtain j where j: "indexOfChar c xs = Some j" "i = Suc j" using Cons.prems by auto
    from Cons.IH [OF j(1)] obtain pre rest where "xs = pre @ c # rest" "c \<notin> set pre" "j = length pre"
      by blast
    then have "x # xs = (x # pre) @ c # rest \<and> c \<notin> set (x # pre) \<and> i = length (x # pre)"
      using False j(2) by simp
    then show ?thesis by blast
  qed
qed

lemma lastIndexOfChar_append:
  "c \<notin> set post \<Longrightarrow> lastIndexOfChar c (front @ c # post) = Some (length front)"
proof -
  assume "c \<notin> set post"
  then have "indexOfChar c (rev post @ c # rev front) = Some (length (rev post))"
    by (intro indexOfChar_append) simp
  then show ?thesis by (simp add: lastIndexOfChar_def)
qed

lemma lastIndexOfChar_Some:
  assumes "lastIndexOfChar c s = Some j"
  shows "\<exists>front post. s = front @ c # post \<and> c \<notin> set post \<and> j = length front"
proof -
  from assms obtain i where i: "indexOfChar c (rev s) = Some i" "j = length s - 1 - i"
    by (auto simp: lastIndexOfChar_def)
  from indexOfChar_Some [OF i(1)] obtain pre rest where p: "rev s = pre @ c # rest" "c \<notin> set pre" "i = length pre"
    by blast
  have "rev (rev s) = rev (pre @ c # rest)" using p(1) by (rule arg_cong)
  then have s: "s = rev rest @ c # rev pre" by simp
  then have "j = length (rev rest)" using i(2) p(3) by simp
  then show ?thesis using s p(2) by (intro exI [of _ "rev rest"] exI [of _ "rev pre"]) simp
qed

lemma extractJsonObject_between:
  assumes "text = pre @ CHR ''{'' # mid @ CHR ''}'' # post" "CHR ''{'' \<notin> set pre" "CHR ''}'' \<notin> set post"
  shows "extractJsonObject text = Inr (CHR ''{'' # mid @ ''}'')"
proof -
  have a: "indexOfChar (CHR ''{'') text = Some (length pre)"
    unfolding assms(1) using assms(2) by (rule indexOfChar_append)
  have "lastIndexOfChar (CHR ''}'') ((pre @ CHR ''{'' # mid) @ CHR ''}'' # post) = Some (length (pre @ CHR ''{'' # mid))"
    using assms(3) by (rule lastIndexOfChar_append)
  then have b: "lastIndexOfChar (CHR ''}'') text = Some (length pre + 1 + length mid)"
    unfolding assms(1) by simp
  show ?thesis
    unfolding extractJsonObject_def a b by (simp add: assms(1))
qed

lemma extractJsonObject_Inr:
  assumes "extractJsonObject text = Inr object"
  shows "\<exists>pre mid post. text = pre @ CHR ''{'' # mid @ CHR ''}'' # post
           \<and> CHR ''{'' \<notin> set pre \<and> CHR ''}'' \<notin> set post"
proof -
  from assms obtain start end' where se: "indexOfChar (CHR ''{'') text = Some start"
    "lastIndexOfChar (CHR ''}'') text = Some end'" "start < end'"
    by (auto simp: extractJsonObject_def split: option.splits if_splits)
  from indexOfChar_Some [OF se(1)] obtain pre rest where p: "text = pre @ CHR ''{'' # rest"
    "CHR ''{'' \<notin> set pre" "start = length pre" by blast
  from lastIndexOfChar_Some [OF se(2)] obtain front post where f: "text = front @ CHR ''}'' # post"
    "CHR ''}'' \<notin> set post" "end' = length front" by blast
  have l: "length pre < length front" using se(3) p(3) f(3) by simp
  have e: "pre @ CHR ''{'' # rest = front @ CHR ''}'' # post" using p(1) f(1) by simp
  have "take (length pre) (pre @ CHR ''{'' # rest) = take (length pre) (front @ CHR ''}'' # post)"
    using e by simp
  then have pf: "pre = take (length pre) front" using l by simp
  then obtain more where m: "front = pre @ more" by (metis append_take_drop_id)
  then have "more \<noteq> []" using l by auto
  moreover have "CHR ''{'' # rest = more @ CHR ''}'' # post" using e m by simp
  ultimately obtain mid where "more = CHR ''{'' # mid" by (cases more) auto
  then have "text = pre @ CHR ''{'' # mid @ CHR ''}'' # post" using f(1) m by simp
  then show ?thesis using p(2) f(2) by blast
qed

lemma toLowerCase_nonempty: "toLowerCase s = [] \<longleftrightarrow> s = []"
  by (simp add: toLowerCase_def)

lemma clampConfidence_range: "0 \<le> clampConfidence v \<and> clampConfidence v \<le> 1"
  by (induction v rule: clampConfidence.induct) simp_all

lemma normalizePos_in: "normalizePos v \<in> POS_VALUES"
  by (simp add: normalizePos_def Let_def POS_VALUES_def)

lemma normalizeCefr_in: "normalizeCefr v \<in> CEFR_VALUES"
  by (simp add: normalizeCefr_def Let_def CEFR_VALUES_def)

lemma normalizeWordItem_None:
  "normalizeWordItem item = None \<longleftrightarrow> \<not> isObjectValue item \<or> normalizeString (getProp item ''word'') = []"
  by (simp add: normalizeWordItem_def Let_def)

lemma normalizeWordItem_Some:
  assumes "normalizeWordItem item = Some e"
  shows "item_word e = normalizeString (getProp item ''word'')"
    and "item_word e \<noteq> []"
    and "item_lemma e = (if normalizeString (getProp item ''lemma'') \<noteq> []
           then normalizeString (getProp item ''lemma'') else toLowerCase (item_word e))"
    and "item_pos e = normalizePos (getProp item ''pos'')"
    and "item_cefr e = normalizeCefr (getProp item ''cefr'')"
    and "item_definition_simple e = normalizeString (getProp item ''definition_simple'')"
    and "item_example_simple e = normalizeString (getProp item ''example_simple'')"
  using assms by (auto simp: normalizeWordItem_def Let_def split: if_splits)

lemma normalizeWordEntries_items:
  assumes "e \<in> set (normalizeWordEntries v)"
  shows "\<exists>item. normalizeWordItem item = Some e"
proof (cases v)
  case None
  then show ?thesis using assms by simp
next
  case (Some j)
  then show ?thesis using assms by (cases j) (auto simp: List.map_filter_def)
qed

lemma parse_direct:
  "jsonParse rawText = Some v \<Longrightarrow> parseAndNormalizeResponse jsonParse rawText = normalizeParsed v"
  by (simp add: parseAndNormalizeResponse_def parseWithFallback_def)

lemma parse_retry:
  assumes "jsonParse rawText = None"
    and "rawText = pre @ CHR ''{'' # mid @ CHR ''}'' # post" "CHR ''{'' \<notin> set pre" "CHR ''}'' \<notin> set post"
  shows "parseAndNormalizeResponse jsonParse rawText =
           (case jsonParse (CHR ''{'' # mid @ ''}'') of
              Some v \<Rightarrow> normalizeParsed v | None \<Rightarrow> Inl SyntaxError)"
  using assms(1) extractJsonObject_between [OF assms(2,3,4)]
  by (simp add: parseAndNormalizeResponse_def parseWithFallback_def split: option.splits)

lemma parse_no_object:
  assumes "jsonParse rawText = None"
    and "\<not> (\<exists>pre mid post. rawText = pre @ CHR ''{'' # mid @ CHR ''}'' # post
              \<and> CHR ''{'' \<notin> set pre \<and> CHR ''}'' \<notin> set post)"
  shows "parseAndNormalizeResponse jsonParse rawText = Inl NoJsonObjectFound"
proof (cases "extractJsonObject rawText")
  case (Inl e)
  then have "e = NoJsonObjectFound"
    by (auto simp: extractJsonObject_def split: option.splits if_splits)
  then show ?thesis using assms(1) Inl
    by (simp add: parseAndNormalizeResponse_def parseWithFallback_def)
next
  case (Inr object)
  then show ?thesis using extractJsonObject_Inr [OF Inr] assms(2) by blast
qed

lemma normalizeParsed_result:
  assumes "normalizeParsed v = Inr r"
  shows "isObjectValue v"
    and "simple_explanation r = normalizeString (getProp v ''simple_explanation'')"
    and "notes_text r = normalizeString (getProp v ''notes'')"
    and "confidence r = clampConfidence (getProp v ''confidence'')"
    and "a2_plus_words r = normalizeWordEntries (getProp v ''a2_plus_words'')"
  using assms by (auto simp: normalizeParsed_def split: if_splits)

lemma entry_normal:
  assumes "normalizeWordItem item = Some e"
  shows "item_word e \<noteq> [] \<and> trim (item_word e) = item_word e \<and> item_lemma e \<noteq> []
     \<and> item_pos e \<in> POS_VALUES \<and> item_cefr e \<in> CEFR_VALUES
     \<and> trim (item_definition_simple e) = item_definition_simple e
     \<and> trim (item_example_simple e) = item_example_simple e"
proof -
  note s = normalizeWordItem_Some [OF assms]
  have "item_lemma e \<noteq> []" using s(2,3) by (auto simp: toLowerCase_nonempty)
  then show ?thesis
    using s(1,2) by (simp add: s(4,5,6,7) normalizeString_trimmed normalizePos_in normalizeCefr_in)
qed

lemma trim_spaces:
  "\<exists>p q. s = p @ trim s @ q \<and> (\<forall>c \<in> set p. isSpace c) \<and> (\<forall>c \<in> set q. isSpace c)"
proof -
  let ?xs = "dropWhile isSpace s"
  let ?p = "takeWhile isSpace s"
  let ?q = "rev (takeWhile isSpace (rev ?xs))"
  have x: "?xs = trim s @ ?q"
    unfolding trim_def by (rule rev_dropWhile_takeWhile)
  have "s = ?p @ ?xs" by simp
  with x have s: "s = ?p @ trim s @ ?q" by simp
  have p: "\<forall>c \<in> set ?p. isSpace c" by (auto dest: set_takeWhileD)
  have q: "\<forall>c \<in> set ?q. isSpace c" by (auto dest: set_takeWhileD)
  from s p q show ?thesis by blast
qed

lemma normalizeString_other: "(\<forall>t. x \<noteq> Some (JString t)) \<Longrightarrow> normalizeString x = []"
  by (cases x rule: normalizeString.cases) auto

lemma clampConfidence_other: "(\<forall>n. x \<noteq> Some (JNumber n)) \<Longrightarrow> clampConfidence x = 1 / 2"
  by (cases x rule: clampConfidence.cases) auto

lemma clampConfidence_Num:
  "clampConfidence (Some (JNumber (Num x))) = (if x < 0 then 0 else if 1 < x then 1 else x)"
  by simp

lemma normalizeWordEntries_other: "(\<forall>items. x \<noteq> Some (JArray items)) \<Longrightarrow> normalizeWordEntries x = []"
  by (cases x rule: normalizeWordEntries.cases) auto

lemma normalizeWordEntries_array:
  "normalizeWordEntries (Some (JArray items)) = map (the \<circ> normalizeWordItem)
     (filter (\<lambda>item. isObjectValue item \<and> normalizeString (getProp item ''word'') \<noteq> []) items)"
proof -
  have "(\<lambda>item. normalizeWordItem item \<noteq> None)
      = (\<lambda>item. isObjectValue item \<and> normalizeString (getProp item ''word'') \<noteq> [])"
    by (auto simp: normalizeWordItem_None)
  then show ?thesis by (simp add: List.map_filter_def)
qed

lemma normalizeParsed_Inl:
  "normalizeParsed v = Inl err \<longleftrightarrow> \<not> isObjectValue v \<and> err = ParsedResultNotAnObject"
  by (auto simp: normalizeParsed_def)

lemma normalizeParsed_Inr:
  "normalizeParsed v = Inr r \<longleftrightarrow>
     isObjectValue v
     \<and> simple_explanation r = normalizeString (getProp v ''simple_explanation'')
     \<and> notes_text r = normalizeString (getProp v ''notes'')
     \<and> confidence r = clampConfidence (getProp v ''confidence'')
     \<and> a2_plus_words r = normalizeWordEntries (getProp v ''a2_plus_words'')"
  by (cases r) (auto simp: normalizeParsed_def)

lemma normalizeParsed_object: "isObjectValue v \<Longrightarrow> \<exists>res. normalizeParsed v = Inr res"
  by (simp add: normalizeParsed_def)

lemma normalizeWordItem_iff:
  "normalizeWordItem item = Some e \<longleftrightarrow>
     isObjectValue item \<and> normalizeString (getProp item ''word'') \<noteq> []
     \<and> item_word e = normalizeString (getProp item ''word'')
     \<and> item_lemma e = (if normalizeString (getProp item ''lemma'') = []
          then toLowerCase (normalizeString (getProp item ''word''))
          else normalizeString (getProp item ''lemma''))
     \<and> item_pos e = (if toLowerCase (normalizeString (getProp item ''pos'')) \<in> POS_VALUES
          then toLowerCase (normalizeString (getProp item ''pos'')) else ''other'')
     \<and> item_cefr e = (if toUpperCase (normalizeString (getProp item ''cefr'')) \<in> CEFR_VALUES
          then toUpperCase (normalizeString (getProp item ''cefr'')) else ''unknown'')
     \<and> item_definition_simple e = normalizeString (getProp item ''definition_simple'')
     \<and> item_example_simple e = normalizeString (getProp item ''example_simple'')"
  by (cases e) (auto simp: normalizeWordItem_def normalizePos_def normalizeCefr_def Let_def)

lemma normalizeParsed_normal:
  assumes "normalizeParsed v = Inr r"
  shows "trim (simple_explanation r) = simple_explanation r
        \<and> trim (notes_text r) = notes_text r
        \<and> 0 \<le> confidence r \<and> confidence r \<le> 1
        \<and> (\<forall>e \<in> set (a2_plus_words r).
              item_word e \<noteq> [] \<and> trim (item_word e) = item_word e \<and> item_lemma e \<noteq> []
              \<and> item_pos e \<in> POS_VALUES \<and> item_cefr e \<in> CEFR_VALUES
              \<and> trim (item_definition_simple e) = item_definition_simple e
              \<and> trim (item_example_simple e) = item_example_simple e)"
proof -
  note n = normalizeParsed_result [OF assms]
  have ent: "item_word e \<noteq> [] \<and> trim (item_word e) = item_word e \<and> item_lemma e \<noteq> []
              \<and> item_pos e \<in> POS_VALUES \<and> item_cefr e \<in> CEFR_VALUES
              \<and> trim (item_definition_simple e) = item_definition_simple e
              \<and> trim (item_example_simple e) = item_example_simple e"
    if mem: "e \<in> set (a2_plus_words r)" for e
  proof -
    have "e \<in> set (normalizeWordEntries (getProp v ''a2_plus_words''))"
      using mem by (simp only: n(5))
    then obtain item where "normalizeWordItem item = Some e"
      using normalizeWordEntries_items by blast
    then show ?thesis by (rule entry_normal)
  qed
  have a: "trim (simple_explanation r) = simple_explanation r"
    unfolding n(2) by (rule normalizeString_trimmed)
  have b: "trim (notes_text r) = notes_text r" unfolding n(3) by (rule normalizeString_trimmed)
  have c: "0 \<le> confidence r" unfolding n(4) using clampConfidence_range by blast
  have d: "confidence r \<le> 1" unfolding n(4) using clampConfidence_range by blast
  show ?thesis using a b c d ent by blast
qed

text \<open>
  C7. \<open>parseAndNormalizeResponse\<close> first parses the raw text; when that fails it parses the
  part of the text from the first \<open>{\<close> to the last \<open>}\<close>; it signals an error when there
  is no such part or when that part does not parse either. A parsed value that is not an
  object is an error too, and every parsed object gives a result, which is the normalized
  one: \<open>simple_explanation\<close> and \<open>notes\<close> are the trimmed strings of the object (empty
  when the property is not a string), where trimming removes white space, and only white
  space, from both ends; the confidence is the number clamped to \<open>[0, 1]\<close> (1 for
  \<open>Infinity\<close>, 0 for \<open>-Infinity\<close>) and 0.5 for \<open>NaN\<close> and for what is not a number; the
  entries are those items of the array that are objects with a word that is not blank, in
  order (none when the property is not an array), each with the trimmed word, the trimmed
  definition and example, a part of speech of the list (\<open>other\<close> when unknown or missing),
  a level of the list (\<open>unknown\<close> when unknown or missing) and a lemma that is the
  lower-case word when missing.
\<close>

theorem parseAndNormalizeResponse_contract:
  "(jsonParse rawText = Some v \<longrightarrow>
      parseAndNormalizeResponse jsonParse rawText = normalizeParsed v)
   \<and> (jsonParse rawText = None \<and> rawText = pre @ CHR ''{'' # mid @ CHR ''}'' # post
        \<and> CHR ''{'' \<notin> set pre \<and> CHR ''}'' \<notin> set post \<longrightarrow>
      parseAndNormalizeResponse jsonParse rawText =
        (case jsonParse (CHR ''{'' # mid @ ''}'') of
           Some u \<Rightarrow> normalizeParsed u | None \<Rightarrow> Inl SyntaxError))
   \<and> (jsonParse rawText = None
        \<and> \<not> (\<exists>p m q. rawText = p @ CHR ''{'' # m @ CHR ''}'' # q
                 \<and> CHR ''{'' \<notin> set p \<and> CHR ''}'' \<notin> set q) \<longrightarrow>
      parseAndNormalizeResponse jsonParse rawText = Inl NoJsonObjectFound)
   \<and> (normalizeParsed v = Inl err \<longleftrightarrow> \<not> isObjectValue v \<and> err = ParsedResultNotAnObject)
   \<and> (isObjectValue v \<longrightarrow> (\<exists>res. normalizeParsed v = Inr res))
   \<and> (normalizeParsed v = Inr r \<longleftrightarrow>
        isObjectValue v
        \<and> simple_explanation r = normalizeString (getProp v ''simple_explanation'')
        \<and> notes_text r = normalizeString (getProp v ''notes'')
        \<and> confidence r = clampConfidence (getProp v ''confidence'')
        \<and> a2_plus_words r = normalizeWordEntries (getProp v ''a2_plus_words''))
   \<and> (normalizeParsed v = Inr r \<longrightarrow>
        trim (simple_explanation r) = simple_explanation r
        \<and> trim (notes_text r) = notes_text r
        \<and> 0 \<le> confidence r \<and> confidence r \<le> 1
        \<and> (\<forall>e \<in> set (a2_plus_words r).
              item_word e \<noteq> [] \<and> trim (item_word e) = item_word e \<and> item_lemma e \<noteq> []
              \<and> item_pos e \<in> POS_VALUES \<and> item_cefr e \<in> CEFR_VALUES
              \<and> trim (item_definition_simple e) = item_definition_simple e
              \<and> trim (item_example_simple e) = item_example_simple e))
   \<and> normalizeString (Some (JString s)) = trim s
   \<and> ((\<forall>t. x \<noteq> Some (JString t)) \<longrightarrow> normalizeString x = [])
   \<and> (\<exists>front back. s = front @ trim s @ back
        \<and> (\<forall>c \<in> set front. isSpace c) \<and> (\<forall>c \<in> set back. isSpace c))
   \<and> (trim s \<noteq> [] \<longrightarrow> \<not> isSpace (hd (trim s)) \<and> \<not> isSpace (last (trim s)))
   \<and> clampConfidence (Some (JNumber (Num y))) = (if y < 0 then 0 else if 1 < y then 1 else y)
   \<and> clampConfidence (Some (JNumber PosInfinity)) = 1
   \<and> clampConfidence (Some (JNumber NegInfinity)) = 0
   \<and> clampConfidence (Some (JNumber NaN)) = 1 / 2
   \<and> ((\<forall>n. x \<noteq> Some (JNumber n)) \<longrightarrow> clampConfidence x = 1 / 2)
   \<and> normalizeWordEntries (Some (JArray items)) =
        map (the \<circ> normalizeWordItem)
          (filter (\<lambda>item. isObjectValue item \<and> normalizeString (getProp item ''word'') \<noteq> []) items)
   \<and> ((\<forall>items. x \<noteq> Some (JArray items)) \<longrightarrow> normalizeWordEntries x = [])
   \<and> (normalizeWordItem item = None \<longleftrightarrow>
        \<not> isObjectValue item \<or> normalizeString (getProp item ''word'') = [])
   \<and> (normalizeWordItem item = Some e \<longleftrightarrow>
        isObjectValue item \<and> normalizeString (getProp item ''word'') \<noteq> []
        \<and> item_word e = normalizeString (getProp item ''word'')
        \<and> item_lemma e = (if normalizeString (getProp item ''lemma'') = []
             then toLowerCase (normalizeString (getProp item ''word''))
             else normalizeString (getProp item ''lemma''))
        \<and> item_pos e = (if toLowerCase (normalizeString (getProp item ''pos'')) \<in> POS_VALUES
             then toLowerCase (normalizeString (getProp item ''pos'')) else ''other'')
        \<and> item_cefr e = (if toUpperCase (normalizeString (getProp item ''cefr'')) \<in> CEFR_VALUES
             then toUpperCase (normalizeString (getProp item ''cefr'')) else ''unknown'')
        \<and> item_definition_simple e = normalizeString (getProp item ''definition_simple'')
        \<and> item_example_simple e = normalizeString (getProp item ''example_simple''))
   \<and> normalizeString None = []
   \<and> normalizePos None = ''other''
   \<and> normalizeCefr None = ''unknown''
   \<and> clampConfidence None = 1 / 2"
proof -
  have c1: "(jsonParse rawText = Some v \<longrightarrow>
      parseAndNormalizeResponse jsonParse rawText = normalizeParsed v)"
    by (simp add: parse_direct)
  have c2: "(jsonParse rawText = None \<and> rawText = pre @ CHR ''{'' # mid @ CHR ''}'' # post
        \<and> CHR ''{'' \<notin> set pre \<and> CHR ''}'' \<notin> set post \<longrightarrow>
      parseAndNormalizeResponse jsonParse rawText =
        (case jsonParse (CHR ''{'' # mid @ ''}'') of
           Some u \<Rightarrow> normalizeParsed u | None \<Rightarrow> Inl SyntaxError))"
    using parse_retry [of jsonParse rawText pre mid post] by blast
  have c3: "(jsonParse rawText = None
        \<and> \<not> (\<exists>p m q. rawText = p @ CHR ''{'' # m @ CHR ''}'' # q
                 \<and> CHR ''{'' \<notin> set p \<and> CHR ''}'' \<notin> set q) \<longrightarrow>
      parseAndNormalizeResponse jsonParse rawText = Inl NoJsonObjectFound)"
    using parse_no_object [of jsonParse rawText] by blast
  have c4: "(normalizeParsed v = Inl err \<longleftrightarrow> \<not> isObjectValue v \<and> err = ParsedResultNotAnObject)"
    by (rule normalizeParsed_Inl)
  have c5: "(isObjectValue v \<longrightarrow> (\<exists>res. normalizeParsed v = Inr res))"
    using normalizeParsed_object [of v] by blast
  have c6: "(normalizeParsed v = Inr r \<longleftrightarrow>
        isObjectValue v
        \<and> simple_explanation r = normalizeString (getProp v ''simple_explanation'')
        \<and> notes_text r = normalizeString (getProp v ''notes'')
        \<and> confidence r = clampConfidence (getProp v ''confidence'')
        \<and> a2_plus_words r = normalizeWordEntries (getProp v ''a2_plus_words''))"
    by (rule normalizeParsed_Inr)
  have c7: "(normalizeParsed v = Inr r \<longrightarrow>
        trim (simple_explanation r) = simple_explanation r
        \<and> trim (notes_text r) = notes_text r
        \<and> 0 \<le> confidence r \<and> confidence r \<le> 1
        \<and> (\<forall>e \<in> set (a2_plus_words r).
              item_word e \<noteq> [] \<and> trim (item_word e) = item_word e \<and> item_lemma e \<noteq> []
              \<and> item_pos e \<in> POS_VALUES \<and> item_cefr e \<in> CEFR_VALUES
              \<and> trim (item_definition_simple e) = item_definition_simple e
              \<and> trim (item_example_simple e) = item_example_simple e))"
    using normalizeParsed_normal [of v r] by blast
  have c8: "normalizeString (Some (JString s)) = trim s"
    by simp
  have c9: "((\<forall>t. x \<noteq> Some (JString t)) \<longrightarrow> normalizeString x = [])"
    using normalizeString_other [of x] by blast
  have c10: "(\<exists>front back. s = front @ trim s @ back
        \<and> (\<forall>c \<in> set front. isSpace c) \<and> (\<forall>c \<in> set back. isSpace c))"
    by (rule trim_spaces)
  have c11: "(trim s \<noteq> [] \<longrightarrow> \<not> isSpace (hd (trim s)) \<and> \<not> isSpace (last (trim s)))"
    using trim_hd [of s] trim_last [of s] by blast
  have c12: "clampConfidence (Some (JNumber (Num y))) = (if y < 0 then 0 else if 1 < y then 1 else y)"
    by (rule clampConfidence_Num)
  have c13: "clampConfidence (Some (JNumber PosInfinity)) = 1"
    by simp
  have c14: "clampConfidence (Some (JNumber NegInfinity)) = 0"
    by simp
  have c15: "clampConfidence (Some (JNumber NaN)) = 1 / 2"
    by simp
  have c16: "((\<forall>n. x \<noteq> Some (JNumber n)) \<longrightarrow> clampConfidence x = 1 / 2)"
    using clampConfidence_other [of x] by blast
  have c17: "normalizeWordEntries (Some (JArray items)) =
        map (the \<circ> normalizeWordItem)
          (filter (\<lambda>item. isObjectValue item \<and> normalizeString (getProp item ''word'') \<noteq> []) items)"
    by (rule normalizeWordEntries_array)
  have c18: "((\<forall>items. x \<noteq> Some (JArray items)) \<longrightarrow> normalizeWordEntries x = [])"
    using normalizeWordEntries_other [of x] by blast
  have c19: "(normalizeWordItem item = None \<longleftrightarrow>
        \<not> isObjectValue item \<or> normalizeString (getProp item ''word'') = [])"
    by (rule normalizeWordItem_None)
  have c20: "(normalizeWordItem item = Some e \<longleftrightarrow>
        isObjectValue item \<and> normalizeString (getProp item ''word'') \<noteq> []
        \<and> item_word e = normalizeString (getProp item ''word'')
        \<and> item_lemma e = (if normalizeString (getProp item ''lemma'') = []
             then toLowerCase (normalizeString (getProp item ''word''))
             else normalizeString (getProp item ''lemma''))
        \<and> item_pos e = (if toLowerCase (normalizeString (getProp item ''pos'')) \<in> POS_VALUES
             then toLowerCase (normalizeString (getProp item ''pos'')) else ''other'')
        \<and> item_cefr e = (if toUpperCase (normalizeString (getProp item ''cefr'')) \<in> CEFR_VALUES
             then toUpperCase (normalizeString (getProp item ''cefr'')) else ''unknown'')
        \<and> item_definition_simple e = normalizeString (getProp item ''definition_simple'')
        \<and> item_example_simple e = normalizeString (getProp item ''example_simple''))"
    by (rule normalizeWordItem_iff)
  have c21: "normalizeString None = []"
    by simp
  have c22: "normalizePos None = ''other''"
    by (simp add: normalizePos_def toLowerCase_def POS_VALUES_def)
  have c23: "normalizeCefr None = ''unknown''"
    by (simp add: normalizeCefr_def toUpperCase_def CEFR_VALUES_def)
  have c24: "clampConfidence None = 1 / 2"
    by simp
  show ?thesis
    by (intro conjI) (rule c1 c2 c3 c4 c5 c6 c7 c8 c9 c10 c11 c12 c13 c14 c15 c16 c17 c18 c19 c20 c21 c22 c23 c24)+
qed

theorem parseAndNormalizeResponse_contract_witness:
  "sampleParse ''{cats}'' = Some sampleObject
   \<and> isObjectValue sampleObject
   \<and> normalizeParsed sampleObject = Inr sampleResult
   \<and> parseAndNormalizeResponse sampleParse ''{cats}'' = Inr sampleResult
   \<and> sampleParse ''Here you go: {cats} bye'' = None
   \<and> parseAndNormalizeResponse sampleParse ''Here you go: {cats} bye'' = Inr sampleResult
   \<and> sampleParse ''} {cats'' = None
   \<and> parseAndNormalizeResponse sampleParse ''} {cats'' = Inl NoJsonObjectFound
   \<and> parseAndNormalizeResponse sampleParse ''{dogs}'' = Inl SyntaxError
   \<and> \<not> isObjectValue (JString ''cats'')
   \<and> normalizeParsed (JString ''cats'') = Inl ParsedResultNotAnObject
   \<and> confidence sampleResult \<le> 1
   \<and> clampConfidence (Some (JString ''0.9'')) = 1 / 2
   \<and> normalizeString (Some (JNumber (Num 7))) = []
   \<and> normalizeWordEntries (Some (JString ''purr'')) = []
   \<and> normalizeWordItem (JObject [(''word'', JString ''   ''), (''pos'', JString ''noun'')]) = None
   \<and> normalizeWordItem (JObject [(''word'', JString ''purr''), (''example_simple'', JString '' Cats purr. '')])
       = Some \<lparr>item_word = ''purr'', item_lemma = ''purr'', item_pos = ''other'', item_cefr = ''unknown'',
           item_definition_simple = [], item_example_simple = ''Cats purr.''\<rparr>"
proof -
  have p1: "sampleParse ''{cats}'' = Some sampleObject" by (simp add: sampleParse_def)
  have p2: "sampleParse ''Here you go: {cats} bye'' = None" by (simp add: sampleParse_def)
  have p3: "sampleParse ''} {cats'' = None" by (simp add: sampleParse_def)
  have p4: "sampleParse ''{dogs}'' = None" by (simp add: sampleParse_def)
  have o1: "isObjectValue sampleObject" by (simp add: sampleObject_def)
  have o2: "\<not> isObjectValue (JString ''cats'')" by simp
  have d3: "\<not> (\<exists>p m q. ''} {cats'' = p @ CHR ''{'' # m @ CHR ''}'' # q
                 \<and> CHR ''{'' \<notin> set p \<and> CHR ''}'' \<notin> set q)"
  proof
    assume "\<exists>p m q. ''} {cats'' = p @ CHR ''{'' # m @ CHR ''}'' # q
                 \<and> CHR ''{'' \<notin> set p \<and> CHR ''}'' \<notin> set q"
    then obtain p m q where e: "''} {cats'' = p @ CHR ''{'' # m @ CHR ''}'' # q" "CHR ''{'' \<notin> set p"
      by blast
    have "''} {cats'' = ''} '' @ CHR ''{'' # ''cats''" by simp
    then have "p @ CHR ''{'' # (m @ CHR ''}'' # q) = ''} '' @ CHR ''{'' # ''cats''" using e(1) by simp
    then have "m @ CHR ''}'' # q = ''cats''"
      using e(2) by (auto simp: append_eq_append_conv2 append_eq_Cons_conv Cons_eq_append_conv)
    then have "CHR ''}'' \<in> set ''cats''" by (metis in_set_conv_decomp)
    then show False by simp
  qed
  note t1 = parseAndNormalizeResponse_contract [where jsonParse = sampleParse and rawText = "''{cats}''"
      and v = sampleObject and r = sampleResult]
  note t2 = parseAndNormalizeResponse_contract [where jsonParse = sampleParse
      and rawText = "''Here you go: {cats} bye''" and pre = "''Here you go: ''" and mid = "''cats''"
      and post = "'' bye''"]
  note t3 = parseAndNormalizeResponse_contract [where jsonParse = sampleParse and rawText = "''} {cats''"]
  note t4 = parseAndNormalizeResponse_contract [where jsonParse = sampleParse and rawText = "''{dogs}''"
      and pre = "[]" and mid = "''dogs''" and post = "[]"]
  note t5 = parseAndNormalizeResponse_contract [where v = "JString ''cats''" and err = ParsedResultNotAnObject]
  note t6 = parseAndNormalizeResponse_contract [where x = "Some (JString ''0.9'')"]
  note t7 = parseAndNormalizeResponse_contract [where x = "Some (JNumber (Num 7))"]
  note t8 = parseAndNormalizeResponse_contract [where x = "Some (JString ''purr'')"]
  note t9 = parseAndNormalizeResponse_contract
      [where item = "JObject [(''word'', JString ''   ''), (''pos'', JString ''noun'')]"]
  note t10 = parseAndNormalizeResponse_contract
      [where item = "JObject [(''word'', JString ''purr''), (''example_simple'', JString '' Cats purr. '')]"
       and e = "\<lparr>item_word = ''purr'', item_lemma = ''purr'', item_pos = ''other'', item_cefr = ''unknown'',
           item_definition_simple = [], item_example_simple = ''Cats purr.''\<rparr>"]
  have f1: "simple_explanation sampleResult = normalizeString (getProp sampleObject ''simple_explanation'')"
    by code_simp
  have f2: "notes_text sampleResult = normalizeString (getProp sampleObject ''notes'')"
    by code_simp
  have f3: "confidence sampleResult = clampConfidence (getProp sampleObject ''confidence'')"
    by code_simp
  have f4: "a2_plus_words sampleResult = normalizeWordEntries (getProp sampleObject ''a2_plus_words'')"
    by code_simp
  have "normalizeParsed sampleObject = Inr sampleResult \<longleftrightarrow>
        isObjectValue sampleObject
        \<and> simple_explanation sampleResult = normalizeString (getProp sampleObject ''simple_explanation'')
        \<and> notes_text sampleResult = normalizeString (getProp sampleObject ''notes'')
        \<and> confidence sampleResult = clampConfidence (getProp sampleObject ''confidence'')
        \<and> a2_plus_words sampleResult = normalizeWordEntries (getProp sampleObject ''a2_plus_words'')"
    by (rule t1 [THEN conjunct2, THEN conjunct2, THEN conjunct2, THEN conjunct2, THEN conjunct2, THEN conjunct1])
  then have np: "normalizeParsed sampleObject = Inr sampleResult"
    using o1 f1 f2 f3 f4 by blast
  have "sampleParse ''{cats}'' = Some sampleObject \<longrightarrow>
      parseAndNormalizeResponse sampleParse ''{cats}'' = normalizeParsed sampleObject"
    by (rule t1 [THEN conjunct1])
  then have w1: "parseAndNormalizeResponse sampleParse ''{cats}'' = Inr sampleResult"
    using p1 np by simp
  have "sampleParse ''Here you go: {cats} bye'' = None
        \<and> ''Here you go: {cats} bye'' = ''Here you go: '' @ CHR ''{'' # ''cats'' @ CHR ''}'' # '' bye''
        \<and> CHR ''{'' \<notin> set ''Here you go: '' \<and> CHR ''}'' \<notin> set '' bye'' \<longrightarrow>
      parseAndNormalizeResponse sampleParse ''Here you go: {cats} bye'' =
        (case sampleParse (CHR ''{'' # ''cats'' @ ''}'') of
           Some u \<Rightarrow> normalizeParsed u | None \<Rightarrow> Inl SyntaxError)"
    by (rule t2 [THEN conjunct2, THEN conjunct1])
  then have "parseAndNormalizeResponse sampleParse ''Here you go: {cats} bye'' =
        (case sampleParse (CHR ''{'' # ''cats'' @ ''}'') of
           Some u \<Rightarrow> normalizeParsed u | None \<Rightarrow> Inl SyntaxError)"
    using p2 by simp
  moreover have "sampleParse (CHR ''{'' # ''cats'' @ ''}'') = Some sampleObject"
    by (simp add: sampleParse_def)
  ultimately have w2: "parseAndNormalizeResponse sampleParse ''Here you go: {cats} bye'' = Inr sampleResult"
    using np by simp
  have "sampleParse ''} {cats'' = None
        \<and> \<not> (\<exists>p m q. ''} {cats'' = p @ CHR ''{'' # m @ CHR ''}'' # q
                 \<and> CHR ''{'' \<notin> set p \<and> CHR ''}'' \<notin> set q) \<longrightarrow>
      parseAndNormalizeResponse sampleParse ''} {cats'' = Inl NoJsonObjectFound"
    by (rule t3 [THEN conjunct2, THEN conjunct2, THEN conjunct1])
  then have w3: "parseAndNormalizeResponse sampleParse ''} {cats'' = Inl NoJsonObjectFound"
    using p3 d3 by blast
  have "sampleParse ''{dogs}'' = None
        \<and> ''{dogs}'' = [] @ CHR ''{'' # ''dogs'' @ CHR ''}'' # []
        \<and> CHR ''{'' \<notin> set [] \<and> CHR ''}'' \<notin> set [] \<longrightarrow>
      parseAndNormalizeResponse sampleParse ''{dogs}'' =
        (case sampleParse (CHR ''{'' # ''dogs'' @ ''}'') of
           Some u \<Rightarrow> normalizeParsed u | None \<Rightarrow> Inl SyntaxError)"
    by (rule t4 [THEN conjunct2, THEN conjunct1])
  then have "parseAndNormalizeResponse sampleParse ''{dogs}'' =
        (case sampleParse (CHR ''{'' # ''dogs'' @ ''}'') of
           Some u \<Rightarrow> normalizeParsed u | None \<Rightarrow> Inl SyntaxError)"
    using p4 by simp
  moreover have "sampleParse (CHR ''{'' # ''dogs'' @ ''}'') = None"
    by (simp add: sampleParse_def)
  ultimately have w4: "parseAndNormalizeResponse sampleParse ''{dogs}'' = Inl SyntaxError"
    by simp
  have "normalizeParsed (JString ''cats'') = Inl ParsedResultNotAnObject \<longleftrightarrow>
        \<not> isObjectValue (JString ''cats'') \<and> ParsedResultNotAnObject = ParsedResultNotAnObject"
    by (rule t5 [THEN conjunct2, THEN conjunct2, THEN conjunct2, THEN conjunct1])
  then have w5: "normalizeParsed (JString ''cats'') = Inl ParsedResultNotAnObject"
    using o2 by blast
  have "normalizeParsed sampleObject = Inr sampleResult \<longrightarrow>
        trim (simple_explanation sampleResult) = simple_explanation sampleResult
        \<and> trim (notes_text sampleResult) = notes_text sampleResult
        \<and> 0 \<le> confidence sampleResult \<and> confidence sampleResult \<le> 1
        \<and> (\<forall>e \<in> set (a2_plus_words sampleResult).
              item_word e \<noteq> [] \<and> trim (item_word e) = item_word e \<and> item_lemma e \<noteq> []
              \<and> item_pos e \<in> POS_VALUES \<and> item_cefr e \<in> CEFR_VALUES
              \<and> trim (item_definition_simple e) = item_definition_simple e
              \<and> trim (item_example_simple e) = item_example_simple e)"
    by (rule t1 [THEN conjunct2, THEN conjunct2, THEN conjunct2, THEN conjunct2, THEN conjunct2, THEN conjunct2, THEN conjunct1])
  then have w6: "confidence sampleResult \<le> 1"
    using np by blast
  have "(\<forall>n. Some (JString ''0.9'') \<noteq> Some (JNumber n)) \<longrightarrow> clampConfidence (Some (JString ''0.9'')) = 1 / 2"
    by (rule t6 [THEN conjunct2, THEN conjunct2, THEN conjunct2, THEN conjunct2, THEN conjunct2, THEN conjunct2, THEN conjunct2, THEN conjunct2, THEN conjunct2, THEN conjunct2, THEN conjunct2, THEN conjunct2, THEN conjunct2, THEN conjunct2, THEN conjunct2, THEN conjunct1])
  then have w7: "clampConfidence (Some (JString ''0.9'')) = 1 / 2" by simp
  have "(\<forall>t. Some (JNumber (Num 7)) \<noteq> Some (JString t)) \<longrightarrow> normalizeString (Some (JNumber (Num 7))) = []"
    by (rule t7 [THEN conjunct2, THEN conjunct2, THEN conjunct2, THEN conjunct2, THEN conjunct2, THEN conjunct2, THEN conjunct2, THEN conjunct2, THEN conjunct1])
  then have w8: "normalizeString (Some (JNumber (Num 7))) = []" by simp
  have "(\<forall>items. Some (JString ''purr'') \<noteq> Some (JArray items)) \<longrightarrow>
        normalizeWordEntries (Some (JString ''purr'')) = []"
    by (rule t8 [THEN conjunct2, THEN conjunct2, THEN conjunct2, THEN conjunct2, THEN conjunct2, THEN conjunct2, THEN conjunct2, THEN conjunct2, THEN conjunct2, THEN conjunct2, THEN conjunct2, THEN conjunct2, THEN conjunct2, THEN conjunct2, THEN conjunct2, THEN conjunct2, THEN conjunct2, THEN conjunct1])
  then have w9: "normalizeWordEntries (Some (JString ''purr'')) = []" by simp
  have "normalizeWordItem (JObject [(''word'', JString ''   ''), (''pos'', JString ''noun'')]) = None \<longleftrightarrow>
        \<not> isObjectValue (JObject [(''word'', JString ''   ''), (''pos'', JString ''noun'')])
        \<or> normalizeString (getProp (JObject [(''word'', JString ''   ''), (''pos'', JString ''noun'')]) ''word'') = []"
    by (rule t9 [THEN conjunct2, THEN conjunct2, THEN conjunct2, THEN conjunct2, THEN conjunct2, THEN conjunct2, THEN conjunct2, THEN conjunct2, THEN conjunct2, THEN conjunct2, THEN conjunct2, THEN conjunct2, THEN conjunct2, THEN conjunct2, THEN conjunct2, THEN conjunct2, THEN conjunct2, THEN conjunct2, THEN conjunct1])
  moreover have "normalizeString (getProp (JObject [(''word'', JString ''   ''), (''pos'', JString ''noun'')]) ''word'') = []"
    by code_simp
  ultimately have w10: "normalizeWordItem (JObject [(''word'', JString ''   ''), (''pos'', JString ''noun'')]) = None"
    by blast
  let ?item = "JObject [(''word'', JString ''purr''), (''example_simple'', JString '' Cats purr. '')]"
  let ?entry = "\<lparr>item_word = ''purr'', item_lemma = ''purr'', item_pos = ''other'', item_cefr = ''unknown'',
           item_definition_simple = [], item_example_simple = ''Cats purr.''\<rparr>"
  have "normalizeWordItem ?item = Some ?entry \<longleftrightarrow>
        isObjectValue ?item \<and> normalizeString (getProp ?item ''word'') \<noteq> []
        \<and> item_word ?entry = normalizeString (getProp ?item ''word'')
        \<and> item_lemma ?entry = (if normalizeString (getProp ?item ''lemma'') = []
             then toLowerCase (normalizeString (getProp ?item ''word''))
             else normalizeString (getProp ?item ''lemma''))
        \<and> item_pos ?entry = (if toLowerCase (normalizeString (getProp ?item ''pos'')) \<in> POS_VALUES
             then toLowerCase (normalizeString (getProp ?item ''pos'')) else ''other'')
        \<and> item_cefr ?entry = (if toUpperCase (normalizeString (getProp ?item ''cefr'')) \<in> CEFR_VALUES
             then toUpperCase (normalizeString (getProp ?item ''cefr'')) else ''unknown'')
        \<and> item_definition_simple ?entry = normalizeString (getProp ?item ''definition_simple'')
        \<and> item_example_simple ?entry = normalizeString (getProp ?item ''example_simple'')"
    by (rule t10 [THEN conjunct2, THEN conjunct2, THEN conjunct2, THEN conjunct2, THEN conjunct2, THEN conjunct2, THEN conjunct2, THEN conjunct2, THEN conjunct2, THEN conjunct2, THEN conjunct2, THEN conjunct2, THEN conjunct2, THEN conjunct2, THEN conjunct2, THEN conjunct2, THEN conjunct2, THEN conjunct2, THEN conjunct2, THEN conjunct1])
  moreover have "isObjectValue ?item" by simp
  moreover have "normalizeString (getProp ?item ''word'') \<noteq> []" by code_simp
  moreover have "item_word ?entry = normalizeString (getProp ?item ''word'')" by code_simp
  moreover have "item_lemma ?entry = (if normalizeString (getProp ?item ''lemma'') = []
             then toLowerCase (normalizeString (getProp ?item ''word''))
             else normalizeString (getProp ?item ''lemma''))" by code_simp
  moreover have "item_pos ?entry = (if toLowerCase (normalizeString (getProp ?item ''pos'')) \<in> POS_VALUES
             then toLowerCase (normalizeString (getProp ?item ''pos'')) else ''other'')" by code_simp
  moreover have "item_cefr ?entry = (if toUpperCase (normalizeString (getProp ?item ''cefr'')) \<in> CEFR_VALUES
             then toUpperCase (normalizeString (getProp ?item ''cefr'')) else ''unknown'')" by code_simp
  moreover have "item_definition_simple ?entry = normalizeString (getProp ?item ''definition_simple'')"
    by code_simp
  moreover have "item_example_simple ?entry = normalizeString (getProp ?item ''example_simple'')"
    by code_simp
  ultimately have w11: "normalizeWordItem ?item = Some ?entry"
    by blast
  show ?thesis
    by (intro conjI) (rule p1 o1 np w1 p2 w2 p3 w3 w4 o2 w5 w6 w7 w8 w9 w10 w11)+
qed

end
